theory Spec2Isabelle
  imports Main "HOL-Library.Char_ord" "HOL-Library.List_Lexorder"
begin

section \<open>Values, errors and dictionaries\<close>

text \<open>
  The pipe compiler works on the output of a JSON parser: nested dictionaries, lists,
  strings and numbers. A dictionary is an association list in which the first binding of
  a key is the one that counts; its order stands for the iteration order of the Python
  dictionary, which the language leaves open (here: the order in which the keys were put in).
  A string is a list of characters; a character above 127 stands for a character outside
  ASCII.
\<close>

datatype json =
    JNull
  | JBool bool
  | JNum int
  | JStr string
  | JArr "json list"
  | JObj "(string \<times> json) list"

text \<open>The exceptions the modelled code raises, each a value.\<close>

datatype py_error =
    KeyError
  | TypeError
  | IndexError
  | AttributeError
  | UnicodeEncodeError
  | ImportError
  | ValueError string
  | StopIteration
  | PyException string
  | CyclicGraphError "string list"

type_synonym 'a result = "py_error + 'a"

text \<open>Sequencing of computations that may raise: the first exception wins.\<close>

definition bind :: "'a result \<Rightarrow> ('a \<Rightarrow> 'b result) \<Rightarrow> 'b result" where
  "bind m f = (case m of Inl e \<Rightarrow> Inl e | Inr x \<Rightarrow> f x)"

text \<open>\<open>for x in xs: ...\<close> collecting one result per element, stopping at the first raise.\<close>

fun mapM :: "('a \<Rightarrow> 'b result) \<Rightarrow> 'a list \<Rightarrow> 'b list result" where
  "mapM f [] = Inr []"
| "mapM f (x # xs) = bind (f x) (\<lambda>y. bind (mapM f xs) (\<lambda>ys. Inr (y # ys)))"

text \<open>\<open>d[k] = v\<close>: an existing key keeps its place, a new key goes last.\<close>

fun dict_set :: "'k \<Rightarrow> 'v \<Rightarrow> ('k \<times> 'v) list \<Rightarrow> ('k \<times> 'v) list" where
  "dict_set k v [] = [(k, v)]"
| "dict_set k v ((k', v') # d) = (if k' = k then (k, v) # d else (k', v') # dict_set k v d)"

text \<open>\<open>d.update(pairs)\<close> and \<open>dict(pairs)\<close>: later pairs overwrite earlier ones.\<close>

definition dict_update :: "('k \<times> 'v) list \<Rightarrow> ('k \<times> 'v) list \<Rightarrow> ('k \<times> 'v) list" where
  "dict_update d pairs = fold (\<lambda>(k, v). dict_set k v) pairs d"

definition dict_of :: "('k \<times> 'v) list \<Rightarrow> ('k \<times> 'v) list" where
  "dict_of pairs = dict_update [] pairs"

text \<open>\<open>d[k]\<close> on a dictionary of the compiler's own.\<close>

definition dict_get :: "('k \<times> 'v) list \<Rightarrow> 'k \<Rightarrow> 'v result" where
  "dict_get d k = (case map_of d k of None \<Rightarrow> Inl KeyError | Some v \<Rightarrow> Inr v)"

text \<open>\<open>x[k]\<close> with a string key on a parsed JSON value: only a dictionary has string keys.\<close>

fun getitem :: "json \<Rightarrow> string \<Rightarrow> json result" where
  "getitem (JObj kvs) k = dict_get kvs k"
| "getitem _ k = Inl TypeError"

text \<open>\<open>s.startswith(p)\<close>: only strings have the method.\<close>

fun startswith :: "json \<Rightarrow> string \<Rightarrow> bool result" where
  "startswith (JStr s) p = Inr (take (length p) s = p)"
| "startswith _ p = Inl AttributeError"

section \<open>Id normalisation: \<open>utils.pythonise\<close>\<close>

text \<open>
  \<open>replace = {'-': '_', ':': '_', '/': '_'}\<close>, folded over the id with \<open>str.replace\<close>
  (each key is one character, so a replacement is a map over the characters); an
  underscore goes in front of a leading digit; \<open>id[0]\<close> raises on the empty string,
  \<open>encode('ascii')\<close> on a character outside ASCII, \<open>id.replace\<close> on a value that is no
  string.
\<close>

definition replace_table :: "(char \<times> char) list" where
  "replace_table = [(CHR ''-'', CHR ''_''), (CHR '':'', CHR ''_''), (CHR ''/'', CHR ''_'')]"

definition str_replace :: "char \<Rightarrow> char \<Rightarrow> string \<Rightarrow> string" where
  "str_replace old new s = map (\<lambda>c. if c = old then new else c) s"

definition string_digits :: string where
  "string_digits = ''0123456789''"

definition encode_ascii :: "string \<Rightarrow> string result" where
  "encode_ascii s = (if list_all (\<lambda>c. of_char c < (128::nat)) s then Inr s else Inl UnicodeEncodeError)"

fun pythonise :: "json \<Rightarrow> string result" where
  "pythonise (JStr i) =
     (let i1 = fold (\<lambda>pair acc. str_replace (fst pair) (snd pair) acc) replace_table i
      in case i1 of
           [] \<Rightarrow> Inl IndexError
         | c # _ \<Rightarrow>
             encode_ascii (if c \<in> set string_digits then CHR ''_'' # i1 else i1))"
| "pythonise _ = Inl AttributeError"


section \<open>The run-time environment\<close>

text \<open>
  What the code takes from the Python interpreter and from modules of the package that
  are not among the sources: \<open>str()\<close> of a value that is no string (used by \<open>'pipe%s' % x\<close>),
  the built-in ordering of tuples of arbitrary values (used by \<open>sorted\<close> on the declared
  inputs), and which modules can be imported, each with the names it defines.
\<close>

record env =
  str_of :: "json \<Rightarrow> string"
  tuple_le :: "json list \<Rightarrow> json list \<Rightarrow> bool"
  registry :: "string \<Rightarrow> string list option"

text \<open>\<open>prefix + '%s' % x\<close>.\<close>

definition percent_s :: "env \<Rightarrow> string \<Rightarrow> json \<Rightarrow> string" where
  "percent_s E pre x = pre @ (case x of JStr s \<Rightarrow> s | _ \<Rightarrow> str_of E x)"

text \<open>\<open>sorted(xs)\<close> under a given comparison: a stable insertion sort.\<close>

fun insort_by :: "('a \<Rightarrow> 'a \<Rightarrow> bool) \<Rightarrow> 'a \<Rightarrow> 'a list \<Rightarrow> 'a list" where
  "insort_by le x [] = [x]"
| "insort_by le x (y # ys) = (if le x y then x # y # ys else y # insort_by le x ys)"

definition sorted_by :: "('a \<Rightarrow> 'a \<Rightarrow> bool) \<Rightarrow> 'a list \<Rightarrow> 'a list" where
  "sorted_by le xs = foldr (insort_by le) xs []"

text \<open>Truth value of a parsed JSON value (\<open>if pipe_def:\<close>).\<close>

fun truthy :: "json \<Rightarrow> bool" where
  "truthy JNull = False"
| "truthy (JBool b) = b"
| "truthy (JNum n) = (n \<noteq> 0)"
| "truthy (JStr s) = (s \<noteq> [])"
| "truthy (JArr xs) = (xs \<noteq> [])"
| "truthy (JObj kvs) = (kvs \<noteq> [])"

text \<open>\<open>for x in v\<close>: a list gives its elements, a dictionary its keys, a string its characters.\<close>

fun py_iter :: "json \<Rightarrow> json list result" where
  "py_iter (JArr xs) = Inr xs"
| "py_iter (JObj kvs) = Inr (map JStr (remdups (map fst kvs)))"
| "py_iter (JStr s) = Inr (map (\<lambda>c. JStr [c]) s)"
| "py_iter _ = Inl TypeError"

text \<open>\<open>utils.listize\<close>: a list (it has \<open>append\<close>) is returned as it is, anything else is wrapped.\<close>

definition listize :: "json \<Rightarrow> json list" where
  "listize item = (case item of JArr xs \<Rightarrow> xs | _ \<Rightarrow> [item])"

section \<open>The graph model: \<open>utils.gen_*\<close> and \<open>parse_pipe_def\<close>\<close>

text \<open>\<open>module['conf']['embed']['value']\<close>.\<close>

definition embed_value :: "json \<Rightarrow> json result" where
  "embed_value module =
     bind (getitem module ''conf'') (\<lambda>conf.
     bind (getitem conf ''embed'') (\<lambda>e. getitem e ''value''))"

definition gen_modules :: "json \<Rightarrow> (string \<times> json) list result" where
  "gen_modules pipe_def =
     bind (getitem pipe_def ''modules'') (\<lambda>ms.
       mapM (\<lambda>module. bind (getitem module ''id'') (\<lambda>i.
                       bind (pythonise i) (\<lambda>k. Inr (k, module)))) (listize ms))"

definition gen_embedded_modules :: "json \<Rightarrow> (string \<times> json) list result" where
  "gen_embedded_modules pipe_def =
     bind (getitem pipe_def ''modules'') (\<lambda>ms.
     bind (mapM (\<lambda>module. bind (getitem module ''type'') (\<lambda>t.
                   if t = JStr ''loop''
                   then bind (embed_value module) (\<lambda>embed.
                        bind (getitem embed ''id'') (\<lambda>i.
                        bind (pythonise i) (\<lambda>k. Inr [(k, embed)])))
                   else Inr [])) (listize ms)) (\<lambda>yss. Inr (concat yss)))"

definition gen_wires :: "json \<Rightarrow> (string \<times> json) list result" where
  "gen_wires pipe_def =
     bind (getitem pipe_def ''wires'') (\<lambda>ws.
       mapM (\<lambda>wire. bind (getitem wire ''id'') (\<lambda>i.
                     bind (pythonise i) (\<lambda>k. Inr (k, wire)))) (listize ws))"

text \<open>Every module is a node; a loop module makes its embedded module a node with an edge
  to the loop.\<close>

definition gen_graph1 :: "json \<Rightarrow> (string \<times> string list) list result" where
  "gen_graph1 pipe_def =
     bind (getitem pipe_def ''modules'') (\<lambda>ms.
     bind (mapM (\<lambda>module. bind (getitem module ''id'') (\<lambda>i.
                 bind (pythonise i) (\<lambda>k.
                 bind (getitem module ''type'') (\<lambda>t.
                   if t = JStr ''loop''
                   then bind (embed_value module) (\<lambda>embed.
                        bind (getitem embed ''id'') (\<lambda>ei.
                        bind (pythonise ei) (\<lambda>ek.
                        bind (getitem module ''id'') (\<lambda>i'.
                        bind (pythonise i') (\<lambda>k'. Inr [(k, []), (ek, [k'])])))))
                   else Inr [(k, [])])))) (listize ms)) (\<lambda>yss. Inr (concat yss)))"

definition wire_end :: "json \<Rightarrow> string \<Rightarrow> string \<Rightarrow> json result" where
  "wire_end wire e f = bind (getitem wire e) (\<lambda>x. getitem x f)"

definition gen_graph2 :: "json \<Rightarrow> (string \<times> string) list result" where
  "gen_graph2 pipe_def =
     bind (getitem pipe_def ''wires'') (\<lambda>ws.
       mapM (\<lambda>wire. bind (wire_end wire ''src'' ''moduleid'') (\<lambda>s.
                     bind (pythonise s) (\<lambda>src_id.
                     bind (wire_end wire ''tgt'' ''moduleid'') (\<lambda>t.
                     bind (pythonise t) (\<lambda>tgt_id. Inr (src_id, tgt_id)))))) (listize ws))"

text \<open>\<open>gen_graph3\<close>: a node stays when its edge list is not empty or some edge list names it.\<close>

definition gen_graph3 :: "(string \<times> string list) list \<Rightarrow> (string \<times> string list) list" where
  "gen_graph3 g =
     (let vals = map snd g
      in filter (\<lambda>(node, val). val \<noteq> [] \<or> list_ex (\<lambda>v. node \<in> set v) vals) g)"

text \<open>\<open>graph[k].append(v)\<close> on a \<open>defaultdict(list)\<close>.\<close>

definition graph_append :: "(string \<times> string list) list \<Rightarrow> string \<times> string \<Rightarrow> (string \<times> string list) list" where
  "graph_append g kv =
     (case map_of g (fst kv) of
        None \<Rightarrow> g @ [(fst kv, [snd kv])]
      | Some vs \<Rightarrow> dict_set (fst kv) (vs @ [snd kv]) g)"

text \<open>The adjacency lists before orphans are removed (the first two lines of \<open>parse_pipe_def\<close>).\<close>

definition raw_graph :: "json \<Rightarrow> (string \<times> string list) list result" where
  "raw_graph pipe_def =
     bind (gen_graph1 pipe_def) (\<lambda>g1.
     bind (gen_graph2 pipe_def) (\<lambda>g2. Inr (foldl graph_append (dict_of g1) g2)))"

record pipe =
  pipe_name :: string
  pipe_modules :: "(string \<times> json) list"
  pipe_embed :: "(string \<times> json) list"
  pipe_graph :: "(string \<times> string list) list"
  pipe_wires :: "(string \<times> json) list"

definition parse_pipe_def :: "json \<Rightarrow> string \<Rightarrow> pipe result" where
  "parse_pipe_def pipe_def pname =
     bind (raw_graph pipe_def) (\<lambda>g.
     bind (gen_modules pipe_def) (\<lambda>ms.
     bind (gen_embedded_modules pipe_def) (\<lambda>es.
     bind (pythonise (JStr pname)) (\<lambda>n.
     bind (gen_wires pipe_def) (\<lambda>ws.
       Inr \<lparr> pipe_name = n,
             pipe_modules = dict_update (dict_of ms) (dict_of es),
             pipe_embed = dict_of es,
             pipe_graph = dict_of (gen_graph3 g),
             pipe_wires = dict_of ws \<rparr>)))))"

section \<open>Static descriptions: \<open>extract_dependencies\<close> and \<open>extract_input\<close>\<close>

text \<open>\<open>try: ... except (KeyError, TypeError): pass\<close>.\<close>

definition except_key_type :: "'a result \<Rightarrow> 'a option result" where
  "except_key_type m =
     (case m of
        Inr x \<Rightarrow> Inr (Some x)
      | Inl KeyError \<Rightarrow> Inr None
      | Inl TypeError \<Rightarrow> Inr None
      | Inl e \<Rightarrow> Inl e)"

text \<open>\<open>module['conf']['embed']['value']['type']\<close>.\<close>

definition embedded_type :: "json \<Rightarrow> json result" where
  "embedded_type module = bind (embed_value module) (\<lambda>v. getitem v ''type'')"

text \<open>\<open>gen_dependencies\<close>: the type of every module, and the type of the module embedded in
  it when the lookup of that type raises neither \<open>KeyError\<close> nor \<open>TypeError\<close>.\<close>

definition gen_dependencies :: "env \<Rightarrow> json \<Rightarrow> string list result" where
  "gen_dependencies E pipe_def =
     bind (getitem pipe_def ''modules'') (\<lambda>ms.
     bind (py_iter ms) (\<lambda>modules.
     bind (mapM (\<lambda>module. bind (getitem module ''type'') (\<lambda>t.
                 bind (except_key_type (embedded_type module)) (\<lambda>et.
                   Inr (percent_s E ''pipe'' t #
                        (case et of Some x \<Rightarrow> [percent_s E ''pipe'' x] | None \<Rightarrow> []))))) modules)
          (\<lambda>yss. Inr (concat yss))))"

text \<open>\<open>extract_dependencies(pipe_def)\<close>, the second argument left at \<open>None\<close>:
  \<open>sorted(set(pydeps))\<close>.\<close>

definition extract_dependencies :: "env \<Rightarrow> json \<Rightarrow> string list result" where
  "extract_dependencies E pipe_def =
     (if truthy pipe_def
      then bind (gen_dependencies E pipe_def) (\<lambda>pydeps. Inr (sort (remdups pydeps)))
      else Inl (PyException ''Must supply at least one kwarg!''))"

text \<open>\<open>gen_input\<close>: a module that has \<open>conf[x]['value']\<close> for position, name and prompt
  declares an input; its tuple is completed from \<open>conf['default']\<close>, outside the \<open>try\<close>.\<close>

definition conf_value :: "json \<Rightarrow> string \<Rightarrow> json result" where
  "conf_value module x =
     bind (getitem module ''conf'') (\<lambda>conf.
     bind (getitem conf x) (\<lambda>f. getitem f ''value''))"

definition conf_default :: "json \<Rightarrow> string \<Rightarrow> json result" where
  "conf_default module x =
     bind (getitem module ''conf'') (\<lambda>conf.
     bind (getitem conf ''default'') (\<lambda>d. getitem d x))"

definition gen_input :: "json \<Rightarrow> json list list result" where
  "gen_input pipe_def =
     bind (getitem pipe_def ''modules'') (\<lambda>ms.
     bind (py_iter ms) (\<lambda>modules.
     bind (mapM (\<lambda>module.
             bind (except_key_type (mapM (conf_value module) [''position'', ''name'', ''prompt''])) (\<lambda>r.
               case r of
                 None \<Rightarrow> Inr []
               | Some module_confs \<Rightarrow>
                   bind (mapM (conf_default module) [''type'', ''value'']) (\<lambda>more.
                     Inr [module_confs @ more]))) modules) (\<lambda>yss. Inr (concat yss))))"

definition extract_input :: "env \<Rightarrow> json \<Rightarrow> json list list result" where
  "extract_input E pipe_def =
     (if truthy pipe_def
      then bind (gen_input pipe_def) (\<lambda>pyinput. Inr (sorted_by (tuple_le E) pyinput))
      else Inl (PyException ''Must supply at least one kwarg!''))"

section \<open>The topological sorter\<close>

text \<open>
  Modelled from the spec: \<open>pipe2py.lib.topsort.topological_sort\<close> is imported by
  \<open>compile.py\<close> and is not among the sources. The specification asks for a
  dependency-respecting order by iterative removal of the nodes that no remaining node
  points to, the node first in insertion order being taken when several are ready, and
  for a \<open>CyclicGraphError\<close> naming the nodes that are left when none of them is ready.
\<close>

definition ready :: "(string \<times> string list) list \<Rightarrow> string list \<Rightarrow> string \<Rightarrow> bool" where
  "ready g rest n = list_all (\<lambda>m. case map_of g m of None \<Rightarrow> True | Some vs \<Rightarrow> n \<notin> set vs) rest"

function kahn :: "(string \<times> string list) list \<Rightarrow> string list \<Rightarrow> string list \<Rightarrow> string list result" where
  "kahn g rest done_rev =
     (if rest = [] then Inr (rev done_rev)
      else case find (ready g rest) rest of
             None \<Rightarrow> Inl (CyclicGraphError rest)
           | Some n \<Rightarrow> kahn g (remove1 n rest) (n # done_rev))"
  by pat_completeness auto
termination
proof (relation "measure (\<lambda>(g, rest, done_rev). length rest)")
  show "wf (measure (\<lambda>(g, rest, done_rev). length rest))" by simp
next
  fix g :: "(string \<times> string list) list" and rest done_rev :: "string list" and n
  assume "rest \<noteq> []" and f: "find (ready g rest) rest = Some n"
  from f have "n \<in> set rest" by (auto simp: find_Some_iff)
  with \<open>rest \<noteq> []\<close> show "((g, remove1 n rest, n # done_rev), (g, rest, done_rev))
      \<in> measure (\<lambda>(g, rest, done_rev). length rest)"
    by (simp add: length_remove1)
qed

definition topological_sort :: "(string \<times> string list) list \<Rightarrow> string list result" where
  "topological_sort g = kahn g (map fst g) []"

section \<open>The wiring resolver of \<open>compile.py\<close>\<close>

text \<open>The execution context, with the fields the compiler reads.\<close>

record pycontext =
  ctx_test :: bool
  ctx_verbose :: bool
  describe_input :: bool
  describe_dependencies :: bool
  ctx_submodule :: bool

text \<open>
  The values the compiler hands around. A stage is opaque to the compiler, so it is
  written as the constructor call that made it: the module imported, the attribute
  called, the positional and the named arguments. \<open>PFunc\<close> is a constructor itself (a
  function object, not called), \<open>PPartial\<close> a partial application of one
  (\<open>functools.partial\<close>), \<open>PForever\<close> the stage \<open>pipe_forever()\<close>, and \<open>PId\<close> the
  \<open>Id\<close> wrapper of the source emitter.
\<close>

datatype pyval =
    PInt int
  | PStr string
  | PConf json
  | PContext pycontext
  | PId pyval
  | PForever
  | PFunc string string
  | PPartial pyval "pyval list" "(string \<times> pyval) list"
  | PStage string string "pyval list" "(string \<times> pyval) list"

type_synonym steps = "(string \<times> pyval) list"

text \<open>\<open>if steps\<close>: \<open>None\<close> and the empty dictionary are false.\<close>

fun given :: "steps option \<Rightarrow> bool" where
  "given None = False"
| "given (Some d) = (d \<noteq> [])"

definition describe :: "pycontext \<Rightarrow> bool" where
  "describe c = (describe_input c \<or> describe_dependencies c)"

text \<open>\<open>steps[k] if steps else Id(alt)\<close> and the like.\<close>

definition step_or :: "steps option \<Rightarrow> string \<Rightarrow> pyval \<Rightarrow> pyval result" where
  "step_or steps k alt = (if given steps then dict_get (the steps) k else Inr alt)"

text \<open>The test of a wire in \<open>_get_input_module\<close> and in \<open>_gen_pykwargs\<close>; \<open>and\<close> evaluates
  its right operand only when the left one is true.\<close>

definition is_default_in_and_out :: "json \<Rightarrow> string \<Rightarrow> bool result" where
  "is_default_in_and_out pipe_wire module_id =
     bind (wire_end pipe_wire ''tgt'' ''moduleid'') (\<lambda>t.
     bind (pythonise t) (\<lambda>tid.
       if tid \<noteq> module_id then Inr False
       else bind (wire_end pipe_wire ''tgt'' ''id'') (\<lambda>ti.
            if ti \<noteq> JStr ''_INPUT'' then Inr False
            else bind (wire_end pipe_wire ''src'' ''id'') (\<lambda>si. startswith si ''_OUTPUT''))))"

definition is_default_out_only :: "json \<Rightarrow> string \<Rightarrow> bool result" where
  "is_default_out_only pipe_wire module_id =
     bind (wire_end pipe_wire ''tgt'' ''moduleid'') (\<lambda>t.
     bind (pythonise t) (\<lambda>tid.
       if tid \<noteq> module_id then Inr False
       else bind (wire_end pipe_wire ''tgt'' ''id'') (\<lambda>ti.
            if ti = JStr ''_INPUT'' then Inr False
            else bind (wire_end pipe_wire ''src'' ''id'') (\<lambda>si. startswith si ''_OUTPUT''))))"

text \<open>The loop of \<open>_get_input_module\<close> over \<open>pipe['wires'].items()\<close>, left at the first wire
  that passes the test (\<open>break\<close>).\<close>

fun input_loop :: "(string \<times> json) list \<Rightarrow> string \<Rightarrow> steps option \<Rightarrow> pyval \<Rightarrow> pyval result" where
  "input_loop [] module_id steps input_module = Inr input_module"
| "input_loop ((key, pipe_wire) # ws) module_id steps input_module =
     bind (wire_end pipe_wire ''src'' ''moduleid'') (\<lambda>s.
     bind (pythonise s) (\<lambda>moduleid.
     bind (is_default_in_and_out pipe_wire module_id) (\<lambda>b.
       if b then step_or steps moduleid (PStr moduleid)
       else input_loop ws module_id steps input_module)))"

definition get_input_module :: "pipe \<Rightarrow> string \<Rightarrow> steps option \<Rightarrow> pyval result" where
  "get_input_module pipe module_id steps =
     bind (step_or steps ''forever'' (PStr ''forever'')) (\<lambda>input_module.
       if module_id \<in> fst ` set (pipe_embed pipe) then Inr (PStr ''_INPUT'')
       else input_loop (pipe_wires pipe) module_id steps input_module)"

text \<open>\<open>_get_pyargs\<close> returns nothing (\<open>None\<close>) when describing with steps at hand.\<close>

definition get_pyargs :: "pycontext \<Rightarrow> pipe \<Rightarrow> string \<Rightarrow> steps option \<Rightarrow> pyval list option result" where
  "get_pyargs c pipe module_id steps =
     (if \<not> (describe c \<and> given steps)
      then bind (get_input_module pipe module_id steps) (\<lambda>input_module.
             Inr (Some (if given steps then [PContext c, input_module]
                        else [PId (PStr ''context''), PId input_module])))
      else Inr None)"

text \<open>The loop of \<open>_gen_pykwargs\<close> over the wires: one named argument for every wire that
  passes the test.\<close>

fun kwargs_loop :: "(string \<times> json) list \<Rightarrow> string \<Rightarrow> steps option \<Rightarrow> (string \<times> pyval) list result" where
  "kwargs_loop [] module_id steps = Inr []"
| "kwargs_loop ((key, pipe_wire) # ws) module_id steps =
     bind (wire_end pipe_wire ''src'' ''moduleid'') (\<lambda>s.
     bind (pythonise s) (\<lambda>moduleid.
     bind (is_default_out_only pipe_wire module_id) (\<lambda>b.
     bind (if b
           then bind (wire_end pipe_wire ''tgt'' ''id'') (\<lambda>ti.
                bind (pythonise ti) (\<lambda>pipe_id.
                bind (step_or steps moduleid (PId (PStr moduleid))) (\<lambda>v. Inr [(pipe_id, v)])))
           else Inr []) (\<lambda>ys.
     bind (kwargs_loop ws module_id steps) (\<lambda>rest. Inr (ys @ rest))))))"

text \<open>The predicate of the split count. Its body is an expression statement: the comparison
  is evaluated and dropped, and the function returns \<open>None\<close>.\<close>

definition filter_func :: "string \<Rightarrow> string \<times> json \<Rightarrow> bool option result" where
  "filter_func module_id x =
     bind (wire_end (snd x) ''src'' ''moduleid'') (\<lambda>s.
     bind (pythonise s) (\<lambda>src_id.
       let unused = (module_id = src_id) in Inr None))"

text \<open>\<open>filter(f, xs)\<close>: the elements on which \<open>f\<close> returns a true value; \<open>None\<close> is false.\<close>

fun py_filter :: "('a \<Rightarrow> bool option result) \<Rightarrow> 'a list \<Rightarrow> 'a list result" where
  "py_filter f [] = Inr []"
| "py_filter f (x # xs) =
     bind (f x) (\<lambda>r.
     bind (py_filter f xs) (\<lambda>rest. Inr (if r = Some True then x # rest else rest)))"

definition gen_pykwargs :: "pycontext \<Rightarrow> pipe \<Rightarrow> string \<Rightarrow> steps option \<Rightarrow> (string \<times> pyval) list result" where
  "gen_pykwargs c pipe module_id steps =
     bind (dict_get (pipe_modules pipe) module_id) (\<lambda>module.
     bind (getitem module ''conf'') (\<lambda>conf.
       if \<not> (describe c \<and> given steps)
       then
         bind (getitem module ''type'') (\<lambda>module_type.
         bind (kwargs_loop (pipe_wires pipe) module_id steps) (\<lambda>extra.
         bind (if module_type = JStr ''loop''
               then bind (embed_value module) (\<lambda>v.
                    bind (getitem v ''id'') (\<lambda>i.
                    bind (pythonise i) (\<lambda>pipe_id.
                    bind (step_or steps pipe_id (PId (PStr (''pipe_'' @ pipe_id)))) (\<lambda>updated.
                      Inr [(''embed'', updated)]))))
               else Inr []) (\<lambda>emb.
         bind (if module_type = JStr ''split''
               then bind (py_filter (filter_func module_id) (pipe_wires pipe)) (\<lambda>filtered.
                      let count = int (length filtered)
                      in Inr [(''splits'', if given steps then PInt count else PId (PInt count))])
               else Inr []) (\<lambda>spl.
           Inr ((''conf'', PConf conf) # extra @ emb @ spl)))))
       else Inr [(''conf'', PConf conf)]))"

section \<open>The pipeline assembler of \<open>compile.py\<close>\<close>

text \<open>\<open>utils.gen_names\<close>, one module id at a time (the generator is consumed through \<open>izip\<close>).\<close>

definition gen_name :: "env \<Rightarrow> pipe \<Rightarrow> string \<Rightarrow> string \<Rightarrow> string result" where
  "gen_name E pipe ntype module_id =
     bind (dict_get (pipe_modules pipe) module_id) (\<lambda>module.
     bind (getitem module ''type'') (\<lambda>module_type.
     bind (startswith module_type ''pipe:'') (\<lambda>b.
       if b then pythonise module_type
       else if ntype = ''module'' then Inr (percent_s E ''pipe'' module_type)
       else if ntype = ''pipe'' then Inr (percent_s E ''pipe_'' module_type)
       else Inl (PyException ''Invalid type''))))"

text \<open>
  The state of the assembly: the stages by module id, the constructor calls made so far
  (each with the id of the module it was made for) and the \<open>__name__\<close> attribute of the
  constructor functions that were renamed.
\<close>

record assembly =
  asm_steps :: steps
  asm_calls :: "(string \<times> pyval) list"
  asm_fnames :: "((string \<times> string) \<times> string) list"

definition import_name_of :: "string \<Rightarrow> string" where
  "import_name_of module_name =
     (if take 5 module_name = ''pipe_'' then ''pipe2py.pypipelines.'' @ module_name
      else ''pipe2py.modules.'' @ module_name)"

text \<open>
  The call \<open>pipe_generator(*pyargs, **pykwargs)\<close>. The positional arguments fill the first
  parameters of the constructor, which are \<open>context\<close> and \<open>_INPUT\<close>
  (\<open>pipe_split(context, _INPUT, conf, splits, **kwargs)\<close> in \<open>pipesplit.py\<close>; the
  constructors of the other modules are not among the sources and are taken to begin in
  the same way). A named argument for a parameter that a positional argument has filled
  raises \<open>TypeError\<close>; otherwise the call returns a stage.
\<close>

definition positional :: "string list" where
  "positional = [''context'', ''_INPUT'']"

definition call_generator :: "string \<Rightarrow> string \<Rightarrow> pyval list \<Rightarrow> (string \<times> pyval) list \<Rightarrow> pyval result" where
  "call_generator import_name pname args kws =
     (if \<exists>k \<in> set (take (length args) positional). k \<in> fst ` set kws then Inl TypeError
      else Inr (PStage import_name pname args kws))"

text \<open>\<open>_gen_steps\<close> and the \<open>steps.update\<close> of its caller: an embedded module stores the
  constructor, renamed; any other module stores the result of calling it.\<close>

definition gen_steps :: "env \<Rightarrow> pycontext \<Rightarrow> pipe \<Rightarrow> string \<Rightarrow> string \<Rightarrow> string \<Rightarrow> assembly \<Rightarrow> assembly result" where
  "gen_steps E c pipe module_id module_name pname st =
     (let import_name = import_name_of module_name
      in case registry E import_name of
           None \<Rightarrow> Inl ImportError
         | Some attrs \<Rightarrow>
             if pname \<notin> set attrs then Inl AttributeError
             else if module_id \<in> fst ` set (pipe_embed pipe)
             then Inr (st \<lparr> asm_steps := dict_set module_id (PFunc import_name pname) (asm_steps st),
                            asm_fnames := dict_set (import_name, pname) (''pipe_'' @ module_id) (asm_fnames st) \<rparr>)
             else
               bind (get_pyargs c pipe module_id (Some (asm_steps st))) (\<lambda>pyargs.
               bind (gen_pykwargs c pipe module_id (Some (asm_steps st))) (\<lambda>kws.
                 case pyargs of
                   None \<Rightarrow> Inl TypeError
                 | Some args \<Rightarrow>
                     bind (call_generator import_name pname args (dict_of kws)) (\<lambda>stage.
                       Inr (st \<lparr> asm_steps := dict_set module_id stage (asm_steps st),
                                  asm_calls := asm_calls st @ [(module_id, stage)] \<rparr>)))))"

fun steps_loop :: "env \<Rightarrow> pycontext \<Rightarrow> pipe \<Rightarrow> string list \<Rightarrow> assembly \<Rightarrow> assembly result" where
  "steps_loop E c pipe [] st = Inr st"
| "steps_loop E c pipe (module_id # ids) st =
     bind (gen_name E pipe ''module'' module_id) (\<lambda>module_name.
     bind (gen_name E pipe ''pipe'' module_id) (\<lambda>pname.
     bind (gen_steps E c pipe module_id module_name pname st) (\<lambda>st'.
       steps_loop E c pipe ids st')))"

text \<open>\<open>_get_steps\<close> starts from \<open>{'forever': pipe_forever()}\<close>.\<close>

definition get_steps :: "env \<Rightarrow> pycontext \<Rightarrow> pipe \<Rightarrow> string list \<Rightarrow> assembly result" where
  "get_steps E c pipe module_ids =
     steps_loop E c pipe module_ids
       \<lparr> asm_steps = [(''forever'', PForever)],
         asm_calls = [(''forever'', PForever)],
         asm_fnames = [] \<rparr>"

text \<open>What \<open>build_pipeline\<close> iterates over at its end: the record of both descriptions, one
  of the two descriptions, or the stage of the last module.\<close>

datatype pipeline =
    Described "json list list" "string list"
  | Inputs "json list list"
  | Dependencies "string list"
  | Running pyval

text \<open>\<open>build_pipeline\<close>, with the constructor calls it made.\<close>

definition build_pipeline :: "env \<Rightarrow> pycontext \<Rightarrow> pipe \<Rightarrow> json \<Rightarrow> (pipeline \<times> (string \<times> pyval) list) result" where
  "build_pipeline E c pipe pipe_def =
     bind (topological_sort (pipe_graph pipe)) (\<lambda>module_ids.
     bind (extract_dependencies E pipe_def) (\<lambda>pydeps.
     bind (extract_input E pipe_def) (\<lambda>pyinput.
     bind (if \<not> describe c
           then bind (get_steps E c pipe module_ids) (\<lambda>st. Inr (Some st))
           else Inr None) (\<lambda>asm.
       let calls = (case asm of None \<Rightarrow> [] | Some st \<Rightarrow> asm_calls st)
       in if describe_input c \<and> describe_dependencies c then Inr (Described pyinput pydeps, calls)
          else if describe_input c then Inr (Inputs pyinput, calls)
          else if describe_dependencies c then Inr (Dependencies pydeps, calls)
          else case asm of
                 None \<Rightarrow> Inl (PyException ''UnboundLocalError'')
               | Some st \<Rightarrow>
                   if module_ids = [] then Inl IndexError
                   else bind (dict_get (asm_steps st) (last module_ids)) (\<lambda>stage.
                          Inr (Running stage, calls))))))"

section \<open>A pipe to evaluate on\<close>

text \<open>
  A fetch module feeds a split; one branch goes through a filter, the other through a
  loop with an embedded module; a union takes the filter on its default input and the
  loop on the terminal \<open>_OTHER\<close>, and feeds the output module. The module \<open>lone\<close> has no
  wire.
\<close>

definition mk_module :: "string \<Rightarrow> string \<Rightarrow> (string \<times> json) list \<Rightarrow> json" where
  "mk_module i t conf = JObj [(''id'', JStr i), (''type'', JStr t), (''conf'', JObj conf)]"

definition mk_wire :: "string \<Rightarrow> string \<Rightarrow> string \<Rightarrow> string \<Rightarrow> string \<Rightarrow> json" where
  "mk_wire i sm st tm tt =
     JObj [(''id'', JStr i),
           (''src'', JObj [(''moduleid'', JStr sm), (''id'', JStr st)]),
           (''tgt'', JObj [(''moduleid'', JStr tm), (''id'', JStr tt)])]"

definition demo_embedded :: json where
  "demo_embedded = mk_module ''sw-9'' ''strconcat'' []"

definition demo_def :: json where
  "demo_def =
     JObj [(''modules'', JArr [
              mk_module ''sw-1'' ''fetch'' [],
              mk_module ''sw-2'' ''split'' [],
              mk_module ''sw-3'' ''filter'' [],
              mk_module ''sw-4'' ''loop'' [(''embed'', JObj [(''value'', demo_embedded)])],
              mk_module ''sw-5'' ''union'' [],
              mk_module ''lone'' ''fetch'' [],
              mk_module ''_OUTPUT'' ''output'' []]),
           (''wires'', JArr [
              mk_wire ''_w1'' ''sw-1'' ''_OUTPUT'' ''sw-2'' ''_INPUT'',
              mk_wire ''_w2'' ''sw-2'' ''_OUTPUT'' ''sw-3'' ''_INPUT'',
              mk_wire ''_w3'' ''sw-2'' ''_OUTPUT2'' ''sw-4'' ''_INPUT'',
              mk_wire ''_w4'' ''sw-3'' ''_OUTPUT'' ''sw-5'' ''_INPUT'',
              mk_wire ''_w5'' ''sw-4'' ''_OUTPUT'' ''sw-5'' ''_OTHER'',
              mk_wire ''_w6'' ''sw-5'' ''_OUTPUT'' ''_OUTPUT'' ''_INPUT''])]"

text \<open>An environment in which every module type of the pipe above can be imported.\<close>

definition demo_env :: env where
  "demo_env =
     \<lparr> str_of = (\<lambda>x. ''?''),
       tuple_le = (\<lambda>x y. True),
       registry = map_of [
         (''pipe2py.modules.pipefetch'', [''pipe_fetch'']),
         (''pipe2py.modules.pipesplit'', [''pipe_split'', ''Split'']),
         (''pipe2py.modules.pipefilter'', [''pipe_filter'']),
         (''pipe2py.modules.pipeloop'', [''pipe_loop'']),
         (''pipe2py.modules.pipestrconcat'', [''pipe_strconcat'']),
         (''pipe2py.modules.pipeunion'', [''pipe_union'']),
         (''pipe2py.modules.pipeoutput'', [''pipe_output''])] \<rparr>"

definition demo_context :: pycontext where
  "demo_context =
     \<lparr> ctx_test = False, ctx_verbose = False, describe_input = False,
       describe_dependencies = False, ctx_submodule = False \<rparr>"

text \<open>The pipe that \<open>parse_pipe_def\<close> makes of it.\<close>

definition demo_pipe :: pipe where
  "demo_pipe =
     \<lparr> pipe_name = ''demo'',
       pipe_modules = [
         (''sw_1'', mk_module ''sw-1'' ''fetch'' []),
         (''sw_2'', mk_module ''sw-2'' ''split'' []),
         (''sw_3'', mk_module ''sw-3'' ''filter'' []),
         (''sw_4'', mk_module ''sw-4'' ''loop'' [(''embed'', JObj [(''value'', demo_embedded)])]),
         (''sw_5'', mk_module ''sw-5'' ''union'' []),
         (''lone'', mk_module ''lone'' ''fetch'' []),
         (''_OUTPUT'', mk_module ''_OUTPUT'' ''output'' []),
         (''sw_9'', demo_embedded)],
       pipe_embed = [(''sw_9'', demo_embedded)],
       pipe_graph = [
         (''sw_1'', [''sw_2'']),
         (''sw_2'', [''sw_3'', ''sw_4'']),
         (''sw_3'', [''sw_5'']),
         (''sw_4'', [''sw_5'']),
         (''sw_9'', [''sw_4'']),
         (''sw_5'', [''_OUTPUT'']),
         (''_OUTPUT'', [])],
       pipe_wires = [
         (''_w1'', mk_wire ''_w1'' ''sw-1'' ''_OUTPUT'' ''sw-2'' ''_INPUT''),
         (''_w2'', mk_wire ''_w2'' ''sw-2'' ''_OUTPUT'' ''sw-3'' ''_INPUT''),
         (''_w3'', mk_wire ''_w3'' ''sw-2'' ''_OUTPUT2'' ''sw-4'' ''_INPUT''),
         (''_w4'', mk_wire ''_w4'' ''sw-3'' ''_OUTPUT'' ''sw-5'' ''_INPUT''),
         (''_w5'', mk_wire ''_w5'' ''sw-4'' ''_OUTPUT'' ''sw-5'' ''_OTHER''),
         (''_w6'', mk_wire ''_w6'' ''sw-5'' ''_OUTPUT'' ''_OUTPUT'' ''_INPUT'')] \<rparr>"

section \<open>Well-formed wires\<close>

text \<open>
  The source and the target module of a wire, normalised, and the wires of the
  specification's data model: both module ids normalise, the target has a terminal
  and the source terminal is a string.
\<close>

definition wire_src :: "json \<Rightarrow> string result" where
  "wire_src w = bind (wire_end w ''src'' ''moduleid'') pythonise"

definition wire_tgt :: "json \<Rightarrow> string result" where
  "wire_tgt w = bind (wire_end w ''tgt'' ''moduleid'') pythonise"

definition wire_ok :: "json \<Rightarrow> bool" where
  "wire_ok w =
     (\<not> isl (wire_src w) \<and> \<not> isl (wire_tgt w) \<and> \<not> isl (wire_end w ''tgt'' ''id'') \<and>
      (case wire_end w ''src'' ''id'' of Inr (JStr s) \<Rightarrow> True | _ \<Rightarrow> False))"

section \<open>Further inputs to evaluate on\<close>

text \<open>The state of the assembly of the pipe above after the given modules, in order.\<close>

definition demo_assembly :: "string list \<Rightarrow> assembly" where
  "demo_assembly ids =
     (case get_steps demo_env demo_context demo_pipe ids of
        Inr st \<Rightarrow> st
      | Inl e \<Rightarrow> \<lparr> asm_steps = [], asm_calls = [], asm_fnames = [] \<rparr>)"



definition clash_pipe :: "(string \<times> json) list \<Rightarrow> pipe" where
  "clash_pipe ws =
     \<lparr> pipe_name = ''clash'',
       pipe_modules = [
         (''a'', mk_module ''a'' ''fetch'' [(''url'', JStr ''A'')]),
         (''c'', mk_module ''c'' ''fetch'' [(''url'', JStr ''C'')]),
         (''b'', mk_module ''b'' ''union'' [])],
       pipe_embed = [],
       pipe_graph = [(''a'', [''b'']), (''c'', [''b'']), (''b'', [])],
       pipe_wires = ws \<rparr>"

text \<open>The same two fetch modules, both wired to the default input of the union module;
  and one of them wired to a terminal of the union module of a given name.\<close>

definition input_wires :: "(string \<times> json) list" where
  "input_wires =
     [(''_w1'', mk_wire ''_w1'' ''a'' ''_OUTPUT'' ''b'' ''_INPUT''),
      (''_w2'', mk_wire ''_w2'' ''c'' ''_OUTPUT'' ''b'' ''_INPUT'')]"

definition reserved_wires :: "string \<Rightarrow> (string \<times> json) list" where
  "reserved_wires t = [(''_w1'', mk_wire ''_w1'' ''a'' ''_OUTPUT'' ''b'' t)]"

definition fetch_stage :: "string \<Rightarrow> pyval" where
  "fetch_stage u =
     PStage ''pipe2py.modules.pipefetch'' ''pipe_fetch'' [PContext demo_context, PForever]
       [(''conf'', PConf (JObj [(''url'', JStr u)]))]"

definition clash_assembly :: assembly where
  "clash_assembly =
     \<lparr> asm_steps = [(''forever'', PForever), (''a'', fetch_stage ''A''), (''c'', fetch_stage ''C'')],
       asm_calls = [(''forever'', PForever), (''a'', fetch_stage ''A''), (''c'', fetch_stage ''C'')],
       asm_fnames = [] \<rparr>"

text \<open>A fetch module feeding a split module that nothing reads from.\<close>

definition tail_def :: json where
  "tail_def =
     JObj [(''modules'', JArr [
              mk_module ''sw-1'' ''fetch'' [],
              mk_module ''sw-2'' ''split'' []]),
           (''wires'', JArr [
              mk_wire ''_w1'' ''sw-1'' ''_OUTPUT'' ''sw-2'' ''_INPUT''])]"

definition tail_pipe :: pipe where
  "tail_pipe =
     \<lparr> pipe_name = ''tail'',
       pipe_modules = [
         (''sw_1'', mk_module ''sw-1'' ''fetch'' []),
         (''sw_2'', mk_module ''sw-2'' ''split'' [])],
       pipe_embed = [],
       pipe_graph = [(''sw_1'', [''sw_2'']), (''sw_2'', [])],
       pipe_wires = [(''_w1'', mk_wire ''_w1'' ''sw-1'' ''_OUTPUT'' ''sw-2'' ''_INPUT'')] \<rparr>"

text \<open>A pipe with a cycle: \<open>a\<close> and \<open>b\<close> feed each other, \<open>s\<close> feeds \<open>a\<close>, and \<open>b\<close> feeds \<open>c\<close>.\<close>

definition cyclic_def :: json where
  "cyclic_def =
     JObj [(''modules'', JArr [
              mk_module ''s'' ''fetch'' [],
              mk_module ''a'' ''union'' [],
              mk_module ''b'' ''filter'' [],
              mk_module ''c'' ''output'' []]),
           (''wires'', JArr [
              mk_wire ''_w1'' ''s'' ''_OUTPUT'' ''a'' ''_INPUT'',
              mk_wire ''_w2'' ''a'' ''_OUTPUT'' ''b'' ''_INPUT'',
              mk_wire ''_w3'' ''b'' ''_OUTPUT'' ''a'' ''_OTHER'',
              mk_wire ''_w4'' ''b'' ''_OUTPUT'' ''c'' ''_INPUT''])]"

definition cyclic_pipe :: pipe where
  "cyclic_pipe =
     \<lparr> pipe_name = ''cyclic'',
       pipe_modules = [
         (''s'', mk_module ''s'' ''fetch'' []),
         (''a'', mk_module ''a'' ''union'' []),
         (''b'', mk_module ''b'' ''filter'' []),
         (''c'', mk_module ''c'' ''output'' [])],
       pipe_embed = [],
       pipe_graph = [(''s'', [''a'']), (''a'', [''b'']), (''b'', [''a'', ''c'']), (''c'', [])],
       pipe_wires = [
         (''_w1'', mk_wire ''_w1'' ''s'' ''_OUTPUT'' ''a'' ''_INPUT''),
         (''_w2'', mk_wire ''_w2'' ''a'' ''_OUTPUT'' ''b'' ''_INPUT''),
         (''_w3'', mk_wire ''_w3'' ''b'' ''_OUTPUT'' ''a'' ''_OTHER''),
         (''_w4'', mk_wire ''_w4'' ''b'' ''_OUTPUT'' ''c'' ''_INPUT'')] \<rparr>"

section \<open>Cycles\<close>

text \<open>An edge of the adjacency graph, and a closed walk \<open>n0, n1, ..., nk, n0\<close> along edges.\<close>

definition edge :: "(string \<times> string list) list \<Rightarrow> string \<Rightarrow> string \<Rightarrow> bool" where
  "edge g m n = (case map_of g m of None \<Rightarrow> False | Some vs \<Rightarrow> n \<in> set vs)"

definition closed_walk :: "(string \<times> string list) list \<Rightarrow> string list \<Rightarrow> bool" where
  "closed_walk g ns =
     (ns \<noteq> [] \<and> list_all (\<lambda>mn. edge g (fst mn) (snd mn)) (zip ns (tl ns @ [hd ns])))"

text \<open>The wires that leave a module.\<close>

definition outgoing :: "pipe \<Rightarrow> string \<Rightarrow> (string \<times> json) list" where
  "outgoing pipe module_id = filter (\<lambda>kw. wire_src (snd kw) = Inr module_id) (pipe_wires pipe)"

section \<open>The store: records that can be changed in place\<close>

text \<open>
  The records that flow through a pipeline are Python dictionaries, changed in place by
  the stages that receive them. A value is an atom or a reference to a container; the
  store is the list of the containers, a reference being an index into it. A new
  container goes at the end of the store.
\<close>

datatype val = VNone | VBool bool | VInt int | VStr string | VRef nat

datatype obj = ODict "(string \<times> val) list" | OList "val list"

type_synonym heap = "obj list"

text \<open>The values a container holds, and a container of the same kind (and the same keys)
  with other values.\<close>

fun obj_vals :: "obj \<Rightarrow> val list" where
  "obj_vals (ODict kvs) = map snd kvs"
| "obj_vals (OList vs) = vs"

fun obj_with :: "obj \<Rightarrow> val list \<Rightarrow> obj" where
  "obj_with (ODict kvs) vs = ODict (zip (map fst kvs) vs)"
| "obj_with (OList us) vs = OList vs"

text \<open>A value is well formed in a store when its reference, if it is one, is in the store;
  a store is well formed when the values of all its containers are.\<close>

definition val_ok :: "heap \<Rightarrow> val \<Rightarrow> bool" where
  "val_ok h x = (case x of VRef a \<Rightarrow> a < length h | _ \<Rightarrow> True)"

definition heap_ok :: "heap \<Rightarrow> bool" where
  "heap_ok h = list_all (\<lambda>ob. list_all (val_ok h) (obj_vals ob)) h"

text \<open>
  \<open>copy.deepcopy\<close> of the Python library, which \<open>pipesplit.py\<close> maps over every
  branch: an atom is returned as it is; a container met before is answered from the memo;
  a new container is made first, entered in the memo, and then filled with the copies of
  its values, so that cycles and sharing are copied as they are. The first argument
  bounds the depth of the recursion; \<open>deepcopy_top\<close> gives it the size of the store and
  one more, which is enough (lemma \<open>deepcopy_top_spec\<close>).
\<close>

type_synonym memo = "(nat \<times> nat) list"

function deepcopy :: "nat \<Rightarrow> val \<Rightarrow> heap \<Rightarrow> memo \<Rightarrow> (val \<times> heap \<times> memo) option"
  and deepcopy_all :: "nat \<Rightarrow> val list \<Rightarrow> heap \<Rightarrow> memo \<Rightarrow> (val list \<times> heap \<times> memo) option"
where
  "deepcopy 0 x h m = None"
| "deepcopy (Suc n) VNone h m = Some (VNone, h, m)"
| "deepcopy (Suc n) (VBool b) h m = Some (VBool b, h, m)"
| "deepcopy (Suc n) (VInt i) h m = Some (VInt i, h, m)"
| "deepcopy (Suc n) (VStr s) h m = Some (VStr s, h, m)"
| "deepcopy (Suc n) (VRef a) h m =
     (case map_of m a of
        Some y \<Rightarrow> Some (VRef y, h, m)
      | None \<Rightarrow>
          if a < length h
          then (let y = length h
                in case deepcopy_all n (obj_vals (h ! a)) (h @ [obj_with (h ! a) []]) ((a, y) # m) of
                     None \<Rightarrow> None
                   | Some (vs, h', m') \<Rightarrow> Some (VRef y, h'[y := obj_with (h ! a) vs], m'))
          else None)"
| "deepcopy_all n [] h m = Some ([], h, m)"
| "deepcopy_all n (x # xs) h m =
     (case deepcopy n x h m of
        None \<Rightarrow> None
      | Some (y, h', m') \<Rightarrow>
          (case deepcopy_all n xs h' m' of
             None \<Rightarrow> None
           | Some (ys, h'', m'') \<Rightarrow> Some (y # ys, h'', m'')))"
  by pat_completeness auto
termination
  by (relation "measures [\<lambda>p. case p of Inl (n, x, h, m) \<Rightarrow> n | Inr (n, xs, h, m) \<Rightarrow> n,
                          \<lambda>p. case p of Inl (n, x, h, m) \<Rightarrow> 0 | Inr (n, xs, h, m) \<Rightarrow> Suc (length xs)]")
     auto

definition deepcopy_top :: "heap \<Rightarrow> val \<Rightarrow> (val \<times> heap) option" where
  "deepcopy_top h x = map_option (\<lambda>r. (fst r, fst (snd r))) (deepcopy (Suc (length h)) x h [])"

text \<open>What a value looks like from outside, down to a given depth: the containers are
  unfolded into a tree, cut off at depth 0.\<close>

datatype tree = Atom val | Dict "(string \<times> tree) list" | Lst "tree list" | Cut

fun content :: "nat \<Rightarrow> heap \<Rightarrow> val \<Rightarrow> tree" where
  "content 0 h x = Cut"
| "content (Suc n) h (VRef a) =
     (if a < length h
      then (case h ! a of
              ODict kvs \<Rightarrow> Dict (map (\<lambda>kv. (fst kv, content n h (snd kv))) kvs)
            | OList vs \<Rightarrow> Lst (map (content n h) vs))
      else Cut)"
| "content (Suc n) h x = Atom x"

text \<open>The containers that can be reached from a value, and a set of containers that
  refers to nothing outside itself.\<close>

inductive reaches :: "heap \<Rightarrow> val \<Rightarrow> nat \<Rightarrow> bool" for h where
  here: "a < length h \<Longrightarrow> reaches h (VRef a) a"
| step: "a < length h \<Longrightarrow> x \<in> set (obj_vals (h ! a)) \<Longrightarrow> reaches h x b \<Longrightarrow> reaches h (VRef a) b"

definition closed_in :: "heap \<Rightarrow> nat set \<Rightarrow> bool" where
  "closed_in h R = (\<forall>a \<in> R. a < length h \<and> (\<forall>c. VRef c \<in> set (obj_vals (h ! a)) \<longrightarrow> c \<in> R))"

text \<open>Changes in place: a list of writes, each putting a container at an address. Writes
  within a set of addresses change only containers of the set and store only references
  into the set.\<close>

definition apply_writes :: "(nat \<times> obj) list \<Rightarrow> heap \<Rightarrow> heap" where
  "apply_writes ws h = fold (\<lambda>w h. h[fst w := snd w]) ws h"

definition writes_within :: "nat set \<Rightarrow> (nat \<times> obj) list \<Rightarrow> bool" where
  "writes_within R ws = (\<forall>w \<in> set ws. fst w \<in> R \<and> (\<forall>c. VRef c \<in> set (obj_vals (snd w)) \<longrightarrow> c \<in> R))"

text \<open>For the proofs about \<open>deepcopy\<close>: the value renamed along the memo, the addresses
  of the original store not yet in the memo, and the invariant of a copy in progress
  (\<open>h0\<close> the store the copy started from, \<open>P\<close> the containers being filled).\<close>

definition ren :: "memo \<Rightarrow> val \<Rightarrow> val" where
  "ren m x = (case x of VRef a \<Rightarrow> (case map_of m a of Some y \<Rightarrow> VRef y | None \<Rightarrow> VRef a) | _ \<Rightarrow> x)"

definition unmemo :: "heap \<Rightarrow> memo \<Rightarrow> nat set" where
  "unmemo h0 m = {a. a < length h0 \<and> a \<notin> fst ` set m}"

definition copying :: "heap \<Rightarrow> heap \<Rightarrow> memo \<Rightarrow> nat set \<Rightarrow> bool" where
  "copying h0 h m P =
     (length h0 \<le> length h \<and> (\<forall>a < length h0. h ! a = h0 ! a) \<and>
      (\<forall>(a, y) \<in> set m. a < length h0 \<and> length h0 \<le> y \<and> y < length h) \<and>
      distinct (map fst m) \<and> distinct (map snd m) \<and>
      (\<forall>b. length h0 \<le> b \<and> b < length h \<longrightarrow> b \<in> snd ` set m) \<and>
      (\<forall>(a, y) \<in> set m. a \<notin> P \<longrightarrow>
          h ! y = obj_with (h0 ! a) (map (ren m) (obj_vals (h0 ! a))) \<and>
          (\<forall>c. VRef c \<in> set (obj_vals (h0 ! a)) \<longrightarrow> c \<in> fst ` set m)))"

section \<open>The split stage: \<open>pipesplit.py\<close>\<close>

text \<open>
  \<open>Split.__init__\<close> makes \<open>tee(_INPUT, splits)\<close> and wraps each of the iterators in
  \<open>imap(deepcopy, iterator)\<close>; the wrapped iterators are held in a generator. The state
  is the items of the input (references into the store), the position of each of the
  \<open>tee\<close> iterators, and how many of them the generator has given out. \<open>tee\<close> raises
  \<open>ValueError\<close> on a negative count.
\<close>

record split_state =
  source :: "val list"
  cursors :: "nat list"
  handed :: nat

definition split_init :: "val list \<Rightarrow> int \<Rightarrow> py_error + split_state" where
  "split_init xs splits =
     (if splits < 0 then Inl (ValueError ''n must be >= 0'')
      else Inr \<lparr> source = xs, cursors = replicate (nat splits) 0, handed = 0 \<rparr>)"

text \<open>\<open>Split.__iter__\<close>: the next iterator of the generator; \<open>StopIteration\<close> is turned
  into \<open>ValueError\<close>. A branch is named by its index.\<close>

definition overactivated :: py_error where
  "overactivated = ValueError ''split has 2 outputs, tried to activate third''"

definition split_iter :: "split_state \<Rightarrow> py_error + (nat \<times> split_state)" where
  "split_iter s =
     (if handed s < length (cursors s)
      then Inr (handed s, s \<lparr> handed := Suc (handed s) \<rparr>)
      else Inl overactivated)"

text \<open>\<open>next\<close> on the iterator of branch \<open>i\<close>: the deep copy of the item at its position,
  made in the store as it is at that moment. The result is \<open>None\<close> when there is no such
  branch, or when the copy does not return.\<close>

definition branch_next :: "split_state \<Rightarrow> heap \<Rightarrow> nat \<Rightarrow> (py_error + (val \<times> heap \<times> split_state)) option" where
  "branch_next s h i =
     (if length (cursors s) \<le> i then None
      else if cursors s ! i < length (source s)
      then map_option (\<lambda>r. Inr (fst r, snd r, s \<lparr> cursors := (cursors s)[i := Suc (cursors s ! i)] \<rparr>))
             (deepcopy_top h (source s ! (cursors s ! i)))
      else Some (Inl StopIteration))"

text \<open>A number of calls of \<open>__iter__\<close> in a row: what each call returned, and the state
  after them.\<close>

fun activations :: "nat \<Rightarrow> split_state \<Rightarrow> (py_error + nat) list" where
  "activations 0 s = []"
| "activations (Suc m) s =
     (case split_iter s of
        Inl e \<Rightarrow> Inl e # activations m s
      | Inr r \<Rightarrow> Inr (fst r) # activations m (snd r))"

fun after_activations :: "nat \<Rightarrow> split_state \<Rightarrow> split_state" where
  "after_activations 0 s = s"
| "after_activations (Suc m) s =
     (case split_iter s of Inl e \<Rightarrow> after_activations m s | Inr r \<Rightarrow> after_activations m (snd r))"

text \<open>The two records of the specification's example in a store, and a two-way split over
  them with both branches given out.\<close>

definition xs_heap :: heap where
  "xs_heap = [ODict [(''x'', VInt 1)], ODict [(''x'', VInt 2)]]"

definition xs_split :: split_state where
  "xs_split = \<lparr> source = [VRef 0, VRef 1], cursors = [0, 0], handed = 2 \<rparr>"

section \<open>A split at work\<close>

text \<open>
  The branches of a split are read by different stages, in any order, and a stage may
  change the records it has received. A world is the store, the state of the split, the
  records delivered so far, the latest first, and the containers that the stages have
  made themselves. A delivered record is listed with its branch, its position in the
  input and the value delivered; the two numbers after them are the length of the store
  before and after the copy was made, and are used in the proofs only.
\<close>

record world =
  w_heap :: heap
  w_split :: split_state
  w_delivered :: "(nat \<times> nat \<times> val \<times> nat \<times> nat) list"
  w_made :: "nat list"

text \<open>What the stages downstream of the branches in \<open>W\<close> can lay hands on: every container
  that can be reached from a record delivered on one of these branches, or from a
  container they have made.\<close>

definition held :: "nat set \<Rightarrow> world \<Rightarrow> nat \<Rightarrow> bool" where
  "held W w a =
     ((\<exists>(b, k, x, lo, hi) \<in> set (w_delivered w). b \<in> W \<and> reaches (w_heap w) x a) \<or>
      (\<exists>m \<in> set (w_made w). reaches (w_heap w) (VRef m) a))"

text \<open>
  The worlds that can be reached from a store and a split. At each step either some
  branch asks for its next record and receives it (\<open>imap(deepcopy, iterator).next()\<close>),
  or a stage downstream of a branch in \<open>W\<close> changes in place a container it holds, or
  makes a new container; the references it stores are references to containers it holds.
  The stages downstream of the other branches only read.
\<close>

inductive run :: "nat set \<Rightarrow> heap \<Rightarrow> split_state \<Rightarrow> world \<Rightarrow> bool" for W h0 s0 where
  started: "run W h0 s0 \<lparr> w_heap = h0, w_split = s0, w_delivered = [], w_made = [] \<rparr>"
| pulled: "run W h0 s0 w \<Longrightarrow> branch_next (w_split w) (w_heap w) b = Some (Inr (x, h', s')) \<Longrightarrow>
         run W h0 s0 \<lparr> w_heap = h', w_split = s',
                        w_delivered = (b, cursors (w_split w) ! b, x, length (w_heap w), length h') # w_delivered w,
                        w_made = w_made w \<rparr>"
| written: "run W h0 s0 w \<Longrightarrow> held W w a \<Longrightarrow>
          \<forall>c. VRef c \<in> set (obj_vals ob) \<longrightarrow> held W w c \<Longrightarrow>
          run W h0 s0 (w \<lparr> w_heap := (w_heap w)[a := ob] \<rparr>)"
| made: "run W h0 s0 w \<Longrightarrow>
          \<forall>c. VRef c \<in> set (obj_vals ob) \<longrightarrow> held W w c \<Longrightarrow>
          run W h0 s0 (w \<lparr> w_heap := w_heap w @ [ob], w_made := length (w_heap w) # w_made w \<rparr>)"

text \<open>For the proofs: the part of the store allocated for the records of the branches in
  \<open>W\<close> and for the containers the stages have made; the parts allocated for the
  delivered records lie one after the other; and what holds of a world that can be
  reached.\<close>

definition owned :: "nat set \<Rightarrow> world \<Rightarrow> nat set" where
  "owned W w = (\<Union>(b, k, x, lo, hi) \<in> set (w_delivered w). if b \<in> W then {lo ..< hi} else {}) \<union> set (w_made w)"

fun stacked :: "(nat \<times> nat \<times> val \<times> nat \<times> nat) list \<Rightarrow> bool" where
  "stacked [] = True"
| "stacked ((b, k, x, lo, hi) # ds) =
     (lo \<le> hi \<and> (\<forall>(b', k', x', lo', hi') \<in> set ds. hi' \<le> lo) \<and> stacked ds)"

definition world_ok :: "nat set \<Rightarrow> heap \<Rightarrow> split_state \<Rightarrow> world \<Rightarrow> bool" where
  "world_ok W h0 s0 w =
     (heap_ok (w_heap w) \<and> length h0 \<le> length (w_heap w) \<and>
      (\<forall>a < length h0. w_heap w ! a = h0 ! a) \<and>
      source (w_split w) = source s0 \<and> stacked (w_delivered w) \<and>
      (\<forall>m \<in> set (w_made w). length h0 \<le> m) \<and>
      closed_in (w_heap w) (owned W w) \<and>
      (\<forall>(b, k, x, lo, hi) \<in> set (w_delivered w).
          length h0 \<le> lo \<and> hi \<le> length (w_heap w) \<and>
          (\<forall>c. x = VRef c \<longrightarrow> c \<in> {lo ..< hi}) \<and>
          (\<forall>m \<in> set (w_made w). m \<notin> {lo ..< hi}) \<and>
          (b \<notin> W \<longrightarrow> closed_in (w_heap w) {lo ..< hi} \<and>
                       (\<forall>n. content n (w_heap w) x = content n h0 (source s0 ! k)))))"

text \<open>The split of the example after both branches have received the first record and
  the stage on branch 0 has set \<open>x\<close> to 99 in its record.\<close>

definition xs_world :: world where
  "xs_world =
     \<lparr> w_heap = [ODict [(''x'', VInt 1)], ODict [(''x'', VInt 2)],
                 ODict [(''x'', VInt 1)], ODict [(''x'', VInt 99)]],
       w_split = \<lparr> source = [VRef 0, VRef 1], cursors = [1, 1], handed = 2 \<rparr>,
       w_delivered = [(0, 0, VRef 3, 3, 4), (1, 0, VRef 2, 2, 3)],
       w_made = [] \<rparr>"

section \<open>Properties of id normalisation\<close>








section \<open>Sequencing and dictionaries\<close>

lemma bind_Inr_iff: "bind m f = Inr y \<longleftrightarrow> (\<exists>x. m = Inr x \<and> f x = Inr y)"
  by (cases m) (auto simp: bind_def)

lemma bind_Inr [simp]: "bind (Inr x) f = f x"
  by (simp add: bind_def)

lemma bind_Inl [simp]: "bind (Inl e) f = Inl e"
  by (simp add: bind_def)

lemma map_of_dict_set: "map_of (dict_set k v d) = (map_of d)(k \<mapsto> v)"
  by (induction d) (auto simp: fun_eq_iff)

lemma keys_dict_set: "fst ` set (dict_set k v d) = insert k (fst ` set d)"
  by (simp add: dom_map_of_conv_image_fst [symmetric] map_of_dict_set)

lemma keys_dict_update: "fst ` set (dict_update d ps) = fst ` set d \<union> fst ` set ps"
  unfolding dict_update_def
  by (induction ps arbitrary: d) (auto simp: keys_dict_set split: prod.splits)

lemma keys_dict_of: "fst ` set (dict_of ps) = fst ` set ps"
  by (simp add: dict_of_def keys_dict_update)

lemma map_of_dict_update_Some:
  "map_of (dict_update d ps) k = Some v \<Longrightarrow> (k, v) \<in> set ps \<or> map_of d k = Some v"
  unfolding dict_update_def
proof (induction ps arbitrary: d)
  case Nil
  then show ?case by simp
next
  case (Cons p ps)
  obtain a b where p: "p = (a, b)" by (cases p)
  from Cons.prems have "map_of (fold (\<lambda>(k, v). dict_set k v) ps (dict_set a b d)) k = Some v"
    by (simp add: p)
  from Cons.IH [OF this] show ?case
    by (auto simp: p map_of_dict_set split: if_splits)
qed

lemma map_of_dict_of_Some: "map_of (dict_of ps) k = Some v \<Longrightarrow> (k, v) \<in> set ps"
  using map_of_dict_update_Some [of "[]" ps k v] by (simp add: dict_of_def)

lemma map_of_graph_append_Nil:
  "map_of (graph_append g kv) n = Some [] \<Longrightarrow> map_of g n = Some []"
  by (auto simp: graph_append_def map_of_dict_set split: option.splits if_splits)

lemma map_of_foldl_graph_append_Nil:
  "map_of (foldl graph_append g kvs) n = Some [] \<Longrightarrow> map_of g n = Some []"
  by (induction kvs arbitrary: g) (auto dest: map_of_graph_append_Nil)

lemma mapM_Inr_iff: "mapM f xs = Inr ys \<longleftrightarrow> list_all2 (\<lambda>x y. f x = Inr y) xs ys"
proof (induction xs arbitrary: ys)
  case Nil
  then show ?case by auto
next
  case (Cons x xs)
  then show ?case
    by (cases ys) (auto simp: bind_Inr_iff)
qed

section \<open>Orphan pruning\<close>

lemma gen_graph3_keys:
  "n \<in> fst ` set (gen_graph3 g) \<longleftrightarrow>
     (\<exists>vs. (n, vs) \<in> set g \<and> (vs \<noteq> [] \<or> (\<exists>v \<in> snd ` set g. n \<in> set v)))"
  by (auto simp: gen_graph3_def Let_def list_ex_iff image_iff)


lemma distinct_dict_set: "distinct (map fst d) \<Longrightarrow> distinct (map fst (dict_set k v d))"
proof (induction d)
  case Nil
  then show ?case by simp
next
  case (Cons p d)
  have "set (map fst (dict_set k v d)) = insert k (set (map fst d))"
    using keys_dict_set [of k v d] by simp
  with Cons show ?case by (cases p) auto
qed

lemma distinct_dict_update:
  "distinct (map fst d) \<Longrightarrow> distinct (map fst (dict_update d ps))"
  unfolding dict_update_def
  by (induction ps arbitrary: d) (auto simp: distinct_dict_set split: prod.splits)

lemma distinct_dict_of: "distinct (map fst (dict_of ps))"
  by (simp add: dict_of_def distinct_dict_update)

lemma distinct_graph_append:
  "distinct (map fst g) \<Longrightarrow> distinct (map fst (graph_append g kv))"
  by (auto simp: graph_append_def distinct_dict_set map_of_eq_None_iff split: option.splits)

lemma distinct_foldl_graph_append:
  "distinct (map fst g) \<Longrightarrow> distinct (map fst (foldl graph_append g kvs))"
  by (induction kvs arbitrary: g) (auto simp: distinct_graph_append)

lemma distinct_raw_graph: "raw_graph pipe_def = Inr g \<Longrightarrow> distinct (map fst g)"
  by (auto simp: raw_graph_def bind_Inr_iff distinct_foldl_graph_append distinct_dict_of)

lemma list_all2_setR: "list_all2 P xs ys \<Longrightarrow> y \<in> set ys \<Longrightarrow> \<exists>x \<in> set xs. P x y"
  by (induction rule: list_all2_induct) auto

lemma list_all2_setL: "list_all2 P xs ys \<Longrightarrow> x \<in> set xs \<Longrightarrow> \<exists>y \<in> set ys. P x y"
  by (induction rule: list_all2_induct) auto

lemma gen_graph1_Nil_in_modules:
  assumes g1: "gen_graph1 pd = Inr g1" and ms: "gen_modules pd = Inr ms" and n: "(n, []) \<in> set g1"
  shows "n \<in> fst ` set ms"
proof -
  from g1 obtain msj yss where msj: "getitem pd ''modules'' = Inr msj"
    and yss: "list_all2 (\<lambda>module ys.
        bind (getitem module ''id'') (\<lambda>i.
                 bind (pythonise i) (\<lambda>k.
                 bind (getitem module ''type'') (\<lambda>t.
                   if t = JStr ''loop''
                   then bind (embed_value module) (\<lambda>embed.
                        bind (getitem embed ''id'') (\<lambda>ei.
                        bind (pythonise ei) (\<lambda>ek.
                        bind (getitem module ''id'') (\<lambda>i'.
                        bind (pythonise i') (\<lambda>k'. Inr [(k, []), (ek, [k'])])))))
                   else Inr [(k, [])]))) = Inr ys) (listize msj) yss"
    and c: "g1 = concat yss"
    by (auto simp: gen_graph1_def bind_Inr_iff mapM_Inr_iff)
  from n c obtain ys where ys: "ys \<in> set yss" and nys: "(n, []) \<in> set ys" by auto
  from list_all2_setR [OF yss ys] obtain m where m: "m \<in> set (listize msj)"
    and fm: "bind (getitem m ''id'') (\<lambda>i.
                 bind (pythonise i) (\<lambda>k.
                 bind (getitem m ''type'') (\<lambda>t.
                   if t = JStr ''loop''
                   then bind (embed_value m) (\<lambda>embed.
                        bind (getitem embed ''id'') (\<lambda>ei.
                        bind (pythonise ei) (\<lambda>ek.
                        bind (getitem m ''id'') (\<lambda>i'.
                        bind (pythonise i') (\<lambda>k'. Inr [(k, []), (ek, [k'])])))))
                   else Inr [(k, [])]))) = Inr ys" by auto
  from fm nys obtain i where i: "getitem m ''id'' = Inr i" and k: "pythonise i = Inr n"
    by (auto simp: bind_Inr_iff split: if_splits)
  from ms msj have "list_all2 (\<lambda>module y. bind (getitem module ''id'') (\<lambda>i.
                       bind (pythonise i) (\<lambda>k. Inr (k, module))) = Inr y) (listize msj) ms"
    by (auto simp: gen_modules_def bind_Inr_iff mapM_Inr_iff)
  from list_all2_setL [OF this m] i k have "(n, m) \<in> set ms"
    by auto
  then show ?thesis by force
qed

lemma kahn_subset: "kahn g rest acc = Inr order \<Longrightarrow> set order \<subseteq> set rest \<union> set acc"
proof (induction g rest acc rule: kahn.induct)
  case (1 g rest done_rev)
  show ?case
  proof (cases "rest = []")
    case True
    with "1.prems" show ?thesis by auto
  next
    case False
    with "1.prems" obtain n where f: "find (ready g rest) rest = Some n"
      and k: "kahn g (remove1 n rest) (n # done_rev) = Inr order"
      by (auto split: option.splits)
    from "1.IH" [OF False f k] have "set order \<subseteq> set (remove1 n rest) \<union> set (n # done_rev)" .
    moreover from f have "n \<in> set rest" by (auto simp: find_Some_iff)
    moreover have "set (remove1 n rest) \<subseteq> set rest" by (rule set_remove1_subset)
    ultimately show ?thesis by auto
  qed
qed

text \<open>
  Claim C8. A node of the dependency graph whose adjacency list is empty and which no
  adjacency list names is not a node of the pruned graph of the parsed pipe, and is in
  no order the sorter returns for that graph; it is still a key of the pipe's module map.
\<close>

theorem orphan_pruned:
  assumes p: "parse_pipe_def pipe_def pname = Inr p"
    and g: "raw_graph pipe_def = Inr g"
    and n: "map_of g n = Some []"
    and nt: "\<forall>(m, vs) \<in> set g. n \<notin> set vs"
  shows "n \<notin> fst ` set (pipe_graph p) \<and> n \<in> fst ` set (pipe_modules p) \<and>
         (\<forall>order. topological_sort (pipe_graph p) = Inr order \<longrightarrow> n \<notin> set order)"
proof -
  from p g obtain ms es nm ws where ms: "gen_modules pipe_def = Inr ms"
    and pg: "pipe_graph p = dict_of (gen_graph3 g)"
    and pm: "pipe_modules p = dict_update (dict_of ms) (dict_of es)"
    by (auto simp: parse_pipe_def_def bind_Inr_iff)
  have notin: "n \<notin> fst ` set (pipe_graph p)"
  proof
    assume "n \<in> fst ` set (pipe_graph p)"
    then have "n \<in> fst ` set (gen_graph3 g)" by (simp add: pg keys_dict_of)
    then obtain vs where vs: "(n, vs) \<in> set g"
      and d: "vs \<noteq> [] \<or> (\<exists>v \<in> snd ` set g. n \<in> set v)"
      by (auto simp: gen_graph3_keys)
    from d show False
    proof
      assume ne: "vs \<noteq> []"
      from distinct_raw_graph [OF g] vs have "map_of g n = Some vs" by simp
      with n ne show False by simp
    next
      assume "\<exists>v \<in> snd ` set g. n \<in> set v"
      with nt show False by auto
    qed
  qed
  from g obtain g1 g2 where g1: "gen_graph1 pipe_def = Inr g1"
    and gg: "g = foldl graph_append (dict_of g1) g2"
    by (auto simp: raw_graph_def bind_Inr_iff)
  from n gg have "map_of (dict_of g1) n = Some []"
    by (auto dest: map_of_foldl_graph_append_Nil)
  then have "(n, []) \<in> set g1" by (rule map_of_dict_of_Some)
  from gen_graph1_Nil_in_modules [OF g1 ms this] have "n \<in> fst ` set ms" .
  then have inm: "n \<in> fst ` set (pipe_modules p)"
    by (simp add: pm keys_dict_update keys_dict_of)
  have "\<forall>order. topological_sort (pipe_graph p) = Inr order \<longrightarrow> n \<notin> set order"
  proof (intro allI impI)
    fix order assume "topological_sort (pipe_graph p) = Inr order"
    then have "set order \<subseteq> fst ` set (pipe_graph p)"
      using kahn_subset [of "pipe_graph p" "map fst (pipe_graph p)" "[]" order]
      by (simp add: topological_sort_def)
    with notin show "n \<notin> set order" by auto
  qed
  with notin inm show ?thesis by simp
qed

theorem orphan_pruned_witness:
  "parse_pipe_def demo_def ''demo'' = Inr demo_pipe \<and>
   map_of (projr (raw_graph demo_def)) ''lone'' = Some [] \<and>
   ''lone'' \<notin> fst ` set (pipe_graph demo_pipe) \<and>
   ''lone'' \<in> fst ` set (pipe_modules demo_pipe) \<and>
   topological_sort (pipe_graph demo_pipe) =
     Inr [''sw_1'', ''sw_2'', ''sw_3'', ''sw_9'', ''sw_4'', ''sw_5'', ''_OUTPUT'']"
proof -
  let ?g = "[(''sw_1'', [''sw_2'']), (''sw_2'', [''sw_3'', ''sw_4'']), (''sw_3'', [''sw_5'']),
             (''sw_4'', [''sw_5'']), (''sw_9'', [''sw_4'']), (''sw_5'', [''_OUTPUT'']),
             (''lone'', []), (''_OUTPUT'', [])]"
  have p: "parse_pipe_def demo_def ''demo'' = Inr demo_pipe" by code_simp
  have g: "raw_graph demo_def = Inr ?g" by code_simp
  have n: "map_of ?g ''lone'' = Some []" by simp
  have nt: "\<forall>(m, vs) \<in> set ?g. ''lone'' \<notin> set vs" by simp
  have t: "topological_sort (pipe_graph demo_pipe) =
     Inr [''sw_1'', ''sw_2'', ''sw_3'', ''sw_9'', ''sw_4'', ''sw_5'', ''_OUTPUT'']" by code_simp
  from orphan_pruned [OF p g n nt] p g n t show ?thesis by simp
qed

section \<open>Default input resolution\<close>

lemma in_and_out_value:
  assumes "wire_tgt w = Inr t" and "wire_end w ''tgt'' ''id'' = Inr ti"
    and "wire_end w ''src'' ''id'' = Inr (JStr s)"
  shows "is_default_in_and_out w module_id =
    Inr (t = module_id \<and> ti = JStr ''_INPUT'' \<and> take (length ''_OUTPUT'') s = ''_OUTPUT'')"
  using assms
  by (auto simp: is_default_in_and_out_def wire_tgt_def bind_Inr_iff)


lemma wire_okE:
  assumes "wire_ok w"
  obtains m t ti s where "wire_src w = Inr m" and "wire_tgt w = Inr t"
    and "wire_end w ''tgt'' ''id'' = Inr ti" and "wire_end w ''src'' ''id'' = Inr (JStr s)"
proof -
  from assms obtain m where "wire_src w = Inr m"
    by (cases "wire_src w") (auto simp: wire_ok_def)
  moreover from assms obtain t where "wire_tgt w = Inr t"
    by (cases "wire_tgt w") (auto simp: wire_ok_def)
  moreover from assms obtain ti where "wire_end w ''tgt'' ''id'' = Inr ti"
    by (cases "wire_end w ''tgt'' ''id''") (auto simp: wire_ok_def)
  moreover from assms obtain s where "wire_end w ''src'' ''id'' = Inr (JStr s)"
    by (auto simp: wire_ok_def split: sum.splits json.splits)
  ultimately show ?thesis using that by blast
qed

lemma wire_ok_in_and_out:
  assumes "wire_ok w"
  shows "\<exists>b. is_default_in_and_out w module_id = Inr b"
  using assms by (elim wire_okE) (simp add: in_and_out_value)

lemma input_loop_find:
  assumes "\<forall>(k, w) \<in> set ws. wire_ok w"
  shows "input_loop ws module_id steps root =
     (case find (\<lambda>kw. is_default_in_and_out (snd kw) module_id = Inr True) ws of
        None \<Rightarrow> Inr root
      | Some kw \<Rightarrow> bind (wire_src (snd kw)) (\<lambda>m. step_or steps m (PStr m)))"
  using assms
proof (induction ws)
  case Nil
  then show ?case by simp
next
  case (Cons kw ws)
  obtain k w where kw: "kw = (k, w)" by (cases kw)
  from Cons.prems kw have ok: "wire_ok w" and rest: "\<forall>(k, w) \<in> set ws. wire_ok w" by auto
  from ok obtain m where m: "wire_src w = Inr m"
    by (elim wire_okE)
  then obtain s where s: "wire_end w ''src'' ''moduleid'' = Inr s" "pythonise s = Inr m"
    by (auto simp: wire_src_def bind_Inr_iff)
  from wire_ok_in_and_out [OF ok] obtain b where b: "is_default_in_and_out w module_id = Inr b"
    by blast
  show ?case
    using Cons.IH [OF rest] by (cases b) (simp_all add: kw s b m)
qed

lemma wire_ok_test:
  assumes "wire_ok w"
  shows "is_default_in_and_out w module_id =
     Inr (wire_tgt w = Inr module_id \<and> wire_end w ''tgt'' ''id'' = Inr (JStr ''_INPUT'') \<and>
          (case wire_end w ''src'' ''id'' of Inr (JStr s) \<Rightarrow> take 7 s = ''_OUTPUT'' | _ \<Rightarrow> False))"
  using assms by (elim wire_okE) (simp add: in_and_out_value eval_nat_numeral)

lemma find_agree:
  assumes "\<forall>x \<in> set xs. P x = Q x"
  shows "find P xs = find Q xs"
  using assms by (induction xs) simp_all

text \<open>
  Claim C2, as amended. For a module that is not embedded, with well-formed wires and
  steps that hold the root stage under \<open>forever\<close>: the default input is the entry of the
  steps for the source module of the first wire, in the order of the dictionary of wires,
  whose target is the module's terminal \<open>_INPUT\<close> and whose source terminal starts with
  \<open>_OUTPUT\<close>; when there is no such wire, it is the root stage.
\<close>

theorem default_input_resolution:
  assumes "module_id \<notin> fst ` set (pipe_embed pipe)"
    and "\<forall>(k, w) \<in> set (pipe_wires pipe). wire_ok w"
    and "d \<noteq> []"
    and "dict_get d ''forever'' = Inr root"
  shows "get_input_module pipe module_id (Some d) =
     (case find (\<lambda>kw. wire_tgt (snd kw) = Inr module_id \<and>
                      wire_end (snd kw) ''tgt'' ''id'' = Inr (JStr ''_INPUT'') \<and>
                      (case wire_end (snd kw) ''src'' ''id'' of
                         Inr (JStr s) \<Rightarrow> take 7 s = ''_OUTPUT''
                       | _ \<Rightarrow> False))
                (pipe_wires pipe) of
        None \<Rightarrow> Inr root
      | Some kw \<Rightarrow> bind (wire_src (snd kw)) (dict_get d))"
proof -
  let ?P = "\<lambda>kw. is_default_in_and_out (snd kw) module_id = Inr True"
  let ?Q = "\<lambda>kw. wire_tgt (snd kw) = Inr module_id \<and>
                      wire_end (snd kw) ''tgt'' ''id'' = Inr (JStr ''_INPUT'') \<and>
                      (case wire_end (snd kw) ''src'' ''id'' of
                         Inr (JStr s) \<Rightarrow> take 7 s = ''_OUTPUT''
                       | _ \<Rightarrow> False)"
  have "\<forall>kw \<in> set (pipe_wires pipe). ?P kw = ?Q kw"
  proof
    fix kw assume "kw \<in> set (pipe_wires pipe)"
    with assms(2) have "wire_ok (snd kw)" by auto
    from wire_ok_test [OF this, of module_id] show "?P kw = ?Q kw" by simp
  qed
  then have "find ?P (pipe_wires pipe) = find ?Q (pipe_wires pipe)" by (rule find_agree)
  with assms input_loop_find [of "pipe_wires pipe" module_id "Some d" root]
  show ?thesis
    by (simp add: get_input_module_def step_or_def split: option.splits)
qed

theorem default_input_resolution_witness:
  "get_input_module demo_pipe ''sw_3'' (Some (asm_steps (demo_assembly [''sw_1'', ''sw_2''])))
     = dict_get (asm_steps (demo_assembly [''sw_1'', ''sw_2''])) ''sw_2'' \<and>
   \<not> isl (dict_get (asm_steps (demo_assembly [''sw_1'', ''sw_2''])) ''sw_2'') \<and>
   get_input_module demo_pipe ''sw_1'' (Some (asm_steps (demo_assembly [''sw_1'', ''sw_2'']))) = Inr PForever"
proof -
  let ?d = "asm_steps (demo_assembly [''sw_1'', ''sw_2''])"
  have h1: "''sw_3'' \<notin> fst ` set (pipe_embed demo_pipe)" by code_simp
  have h1': "''sw_1'' \<notin> fst ` set (pipe_embed demo_pipe)" by code_simp
  have h2: "\<forall>(k, w) \<in> set (pipe_wires demo_pipe). wire_ok w" by code_simp
  have h3: "?d \<noteq> []" by code_simp
  have h4: "dict_get ?d ''forever'' = Inr PForever" by code_simp
  have w3: "find (\<lambda>kw. wire_tgt (snd kw) = Inr ''sw_3'' \<and>
                      wire_end (snd kw) ''tgt'' ''id'' = Inr (JStr ''_INPUT'') \<and>
                      (case wire_end (snd kw) ''src'' ''id'' of
                         Inr (JStr s) \<Rightarrow> take 7 s = ''_OUTPUT''
                       | _ \<Rightarrow> False))
                (pipe_wires demo_pipe) =
      Some (''_w2'', mk_wire ''_w2'' ''sw-2'' ''_OUTPUT'' ''sw-3'' ''_INPUT'')" by code_simp
  have w1: "find (\<lambda>kw. wire_tgt (snd kw) = Inr ''sw_1'' \<and>
                      wire_end (snd kw) ''tgt'' ''id'' = Inr (JStr ''_INPUT'') \<and>
                      (case wire_end (snd kw) ''src'' ''id'' of
                         Inr (JStr s) \<Rightarrow> take 7 s = ''_OUTPUT''
                       | _ \<Rightarrow> False))
                (pipe_wires demo_pipe) = None" by code_simp
  have s: "wire_src (mk_wire ''_w2'' ''sw-2'' ''_OUTPUT'' ''sw-3'' ''_INPUT'') = Inr ''sw_2''"
    by code_simp
  have e: "\<not> isl (dict_get ?d ''sw_2'')" by code_simp
  from default_input_resolution [OF h1 h2 h3 h4] default_input_resolution [OF h1' h2 h3 h4] w3 w1 s e
  show ?thesis by simp
qed

text \<open>Two wires to the default input of the same module, from different modules: both
  have the module's \<open>_INPUT\<close> as target and \<open>_OUTPUT\<close> as source terminal, and the default
  input is the stage of the source of one of them only, whichever of the two wires the
  dictionary of wires gives first.\<close>

theorem default_input_second_wire:
  "wire_tgt (mk_wire ''_w2'' ''c'' ''_OUTPUT'' ''b'' ''_INPUT'') = Inr ''b'' \<and>
   wire_end (mk_wire ''_w2'' ''c'' ''_OUTPUT'' ''b'' ''_INPUT'') ''tgt'' ''id'' = Inr (JStr ''_INPUT'') \<and>
   wire_end (mk_wire ''_w2'' ''c'' ''_OUTPUT'' ''b'' ''_INPUT'') ''src'' ''id'' = Inr (JStr ''_OUTPUT'') \<and>
   wire_src (mk_wire ''_w2'' ''c'' ''_OUTPUT'' ''b'' ''_INPUT'') = Inr ''c'' \<and>
   (''_w2'', mk_wire ''_w2'' ''c'' ''_OUTPUT'' ''b'' ''_INPUT'') \<in> set (pipe_wires (clash_pipe input_wires)) \<and>
   ''b'' \<notin> fst ` set (pipe_embed (clash_pipe input_wires)) \<and>
   map_of (asm_steps clash_assembly) ''a'' = Some (fetch_stage ''A'') \<and>
   map_of (asm_steps clash_assembly) ''c'' = Some (fetch_stage ''C'') \<and>
   fetch_stage ''A'' \<noteq> fetch_stage ''C'' \<and>
   get_input_module (clash_pipe input_wires) ''b'' (Some (asm_steps clash_assembly))
     = Inr (fetch_stage ''A'') \<and>
   get_input_module (clash_pipe (rev input_wires)) ''b'' (Some (asm_steps clash_assembly))
     = Inr (fetch_stage ''C'')"
  by code_simp

section \<open>Auxiliary input resolution\<close>











text \<open>A wire to a terminal named \<open>context\<close>, or to one that normalises to \<open>_INPUT\<close>: the
  resolver yields the named argument, and the call of the constructor raises.\<close>

lemma auxiliary_input_reserved:
  "gen_pykwargs demo_context (clash_pipe (reserved_wires ''context'')) ''b'' (Some (asm_steps clash_assembly))
     = Inr [(''conf'', PConf (JObj [])), (''context'', fetch_stage ''A'')] \<and>
   gen_steps demo_env demo_context (clash_pipe (reserved_wires ''context'')) ''b'' ''pipeunion'' ''pipe_union''
     clash_assembly = Inl TypeError \<and>
   gen_pykwargs demo_context (clash_pipe (reserved_wires ''-INPUT'')) ''b'' (Some (asm_steps clash_assembly))
     = Inr [(''conf'', PConf (JObj [])), (''_INPUT'', fetch_stage ''A'')] \<and>
   gen_steps demo_env demo_context (clash_pipe (reserved_wires ''-INPUT'')) ''b'' ''pipeunion'' ''pipe_union''
     clash_assembly = Inl TypeError"
  by code_simp

section \<open>Embedded modules\<close>

text \<open>
  Claim C5, as amended. For an embedded module the assembly calls no constructor: the step
  stored under the module's id is the constructor function itself, not applied to
  anything, and its \<open>__name__\<close> is set to \<open>pipe_\<close> followed by the id. The default input
  of an embedded module is the placeholder \<open>_INPUT\<close>.
\<close>

theorem embedded_module_assembly:
  assumes "module_id \<in> fst ` set (pipe_embed pipe)"
    and "gen_steps E c pipe module_id module_name pname st = Inr st'"
  shows "asm_calls st' = asm_calls st \<and>
         map_of (asm_steps st') module_id = Some (PFunc (import_name_of module_name) pname) \<and>
         map_of (asm_fnames st') (import_name_of module_name, pname) = Some (''pipe_'' @ module_id) \<and>
         (\<forall>steps. (given steps \<longrightarrow> ''forever'' \<in> fst ` set (the steps)) \<longrightarrow>
            get_input_module pipe module_id steps = Inr (PStr ''_INPUT''))"
proof -
  from assms have st': "st' = st \<lparr> asm_steps := dict_set module_id (PFunc (import_name_of module_name) pname) (asm_steps st),
                            asm_fnames := dict_set (import_name_of module_name, pname) (''pipe_'' @ module_id) (asm_fnames st) \<rparr>"
    by (auto simp: gen_steps_def Let_def split: option.splits if_splits)
  have "get_input_module pipe module_id steps = Inr (PStr ''_INPUT'')"
    if "given steps \<longrightarrow> ''forever'' \<in> fst ` set (the steps)" for steps
  proof (cases "given steps")
    case True
    with that have "''forever'' \<in> fst ` set (the steps)" by simp
    then obtain v where "map_of (the steps) ''forever'' = Some v"
      by (auto simp: dom_map_of_conv_image_fst [symmetric])
    with True assms(1) show ?thesis
      by (simp add: get_input_module_def step_or_def dict_get_def)
  next
    case False
    with assms(1) show ?thesis by (simp add: get_input_module_def step_or_def)
  qed
  then show ?thesis by (simp add: st' map_of_dict_set)
qed

theorem embedded_module_assembly_witness:
  "gen_steps demo_env demo_context demo_pipe ''sw_9'' ''pipestrconcat'' ''pipe_strconcat''
     (demo_assembly [''sw_1'', ''sw_2'', ''sw_3''])
     = Inr (demo_assembly [''sw_1'', ''sw_2'', ''sw_3'', ''sw_9'']) \<and>
   asm_calls (demo_assembly [''sw_1'', ''sw_2'', ''sw_3'', ''sw_9'']) = asm_calls (demo_assembly [''sw_1'', ''sw_2'', ''sw_3'']) \<and>
   map_of (asm_steps (demo_assembly [''sw_1'', ''sw_2'', ''sw_3'', ''sw_9''])) ''sw_9''
     = Some (PFunc ''pipe2py.modules.pipestrconcat'' ''pipe_strconcat'') \<and>
   get_input_module demo_pipe ''sw_9'' None = Inr (PStr ''_INPUT'')"
proof -
  have m: "''sw_9'' \<in> fst ` set (pipe_embed demo_pipe)" by code_simp
  have gs: "gen_steps demo_env demo_context demo_pipe ''sw_9'' ''pipestrconcat'' ''pipe_strconcat''
     (demo_assembly [''sw_1'', ''sw_2'', ''sw_3''])
     = Inr (demo_assembly [''sw_1'', ''sw_2'', ''sw_3'', ''sw_9''])" by code_simp
  have i: "import_name_of ''pipestrconcat'' = ''pipe2py.modules.pipestrconcat''" by code_simp
  from embedded_module_assembly [OF m gs] gs i show ?thesis by simp
qed

text \<open>The step stored for the embedded module of the pipe above is the constructor
  function, and not a partial application of it to the context and the configuration.\<close>

theorem embedded_module_not_partial:
  "map_of (asm_steps (demo_assembly [''sw_1'', ''sw_2'', ''sw_3'', ''sw_9''])) ''sw_9''
     = Some (PFunc ''pipe2py.modules.pipestrconcat'' ''pipe_strconcat'') \<and>
   PFunc ''pipe2py.modules.pipestrconcat'' ''pipe_strconcat'' \<noteq>
     PPartial (PFunc ''pipe2py.modules.pipestrconcat'' ''pipe_strconcat'')
       [PContext demo_context] [(''conf'', PConf (JObj []))] \<and>
   map_of (pipe_embed demo_pipe) ''sw_9'' = Some demo_embedded \<and>
   getitem demo_embedded ''conf'' = Inr (JObj [])"
  by code_simp

section \<open>The split count\<close>






text \<open>The predicate of the count returns \<open>None\<close> on every wire, so the count is 0 also
  for a split module that two wires leave.\<close>

lemma split_count_ignores_outgoing_wires:
  "length (outgoing demo_pipe ''sw_2'') = 2 \<and>
   gen_pykwargs demo_context demo_pipe ''sw_2'' (Some (asm_steps (demo_assembly [''sw_1''])))
     = Inr [(''conf'', PConf (JObj [])), (''splits'', PInt 0)]"
  by code_simp

section \<open>Cyclic graphs\<close>

lemma ready_not_on_walk:
  assumes cw: "closed_walk g ns" and sub: "set ns \<subseteq> set rest" and n: "n \<in> set ns"
  shows "\<not> ready g rest n"
proof -
  from cw have ne: "ns \<noteq> []"
    and ed: "\<forall>mn \<in> set (zip ns (tl ns @ [hd ns])). edge g (fst mn) (snd mn)"
    by (auto simp: closed_walk_def list_all_iff)
  have len: "length (tl ns @ [hd ns]) = length ns" using ne by (cases ns) auto
  have rot: "set (tl ns @ [hd ns]) = set ns" using ne by (cases ns) auto
  from n rot have "n \<in> set (tl ns @ [hd ns])" by simp
  then obtain m where mn: "(m, n) \<in> set (zip ns (tl ns @ [hd ns]))"
    using len by (metis in_set_impl_in_set_zip2)
  then have "m \<in> set ns" by (rule set_zip_leftD)
  with sub have mr: "m \<in> set rest" by auto
  from ed mn have "edge g m n" by auto
  with mr show ?thesis
    by (auto simp: ready_def edge_def list_all_iff split: option.splits)
qed

lemma kahn_closed_walk:
  assumes "closed_walk g ns" and "set ns \<subseteq> set rest"
  shows "\<exists>left. kahn g rest acc = Inl (CyclicGraphError left) \<and> set ns \<subseteq> set left \<and> set left \<subseteq> set rest"
  using assms
proof (induction g rest acc rule: kahn.induct)
  case (1 g rest done_rev)
  from "1.prems" have ne: "rest \<noteq> []" by (auto simp: closed_walk_def)
  show ?case
  proof (cases "find (ready g rest) rest")
    case None
    with ne "1.prems" show ?thesis by simp
  next
    case (Some n)
    then have r: "ready g rest n" and nr: "n \<in> set rest" by (auto simp: find_Some_iff)
    from r ready_not_on_walk [OF "1.prems"] have "n \<notin> set ns" by blast
    have sub: "set ns \<subseteq> set (remove1 n rest)"
    proof
      fix x assume x: "x \<in> set ns"
      with \<open>n \<notin> set ns\<close> have "x \<noteq> n" by auto
      moreover from x "1.prems"(2) have "x \<in> set rest" by auto
      ultimately show "x \<in> set (remove1 n rest)" by (simp add: in_set_remove1)
    qed
    from "1.IH" [OF ne Some "1.prems"(1) sub] obtain left
      where "kahn g (remove1 n rest) (n # done_rev) = Inl (CyclicGraphError left)"
        and "set ns \<subseteq> set left" and "set left \<subseteq> set (remove1 n rest)" by blast
    moreover have "set (remove1 n rest) \<subseteq> set rest" by (rule set_remove1_subset)
    ultimately show ?thesis using ne Some by auto
  qed
qed

lemma closed_walk_keys:
  assumes "closed_walk g ns"
  shows "set ns \<subseteq> fst ` set g"
proof
  fix m assume m: "m \<in> set ns"
  from assms have ne: "ns \<noteq> []"
    and ed: "\<forall>mn \<in> set (zip ns (tl ns @ [hd ns])). edge g (fst mn) (snd mn)"
    by (auto simp: closed_walk_def list_all_iff)
  have len: "length ns = length (tl ns @ [hd ns])" using ne by (cases ns) auto
  from m len obtain n where "(m, n) \<in> set (zip ns (tl ns @ [hd ns]))"
    by (metis in_set_impl_in_set_zip1)
  with ed have "edge g m n" by auto
  then obtain vs where "map_of g m = Some vs" by (auto simp: edge_def split: option.splits)
  then show "m \<in> fst ` set g" by (auto dest: map_of_SomeD intro: rev_image_eqI)
qed

text \<open>
  Claim C4. When the adjacency graph of a pipe holds a closed walk, \<open>build_pipeline\<close> fails
  with \<open>CyclicGraphError\<close>, whatever the context and the environment: it returns no order
  and no pipeline. The error names the nodes that could not be placed; every node of the
  walk is among them.
\<close>

theorem cyclic_graph_fails:
  assumes "closed_walk (pipe_graph pipe) ns"
  shows "\<exists>left. build_pipeline E c pipe pipe_def = Inl (CyclicGraphError left) \<and>
           set ns \<subseteq> set left \<and> set left \<subseteq> fst ` set (pipe_graph pipe)"
proof -
  from closed_walk_keys [OF assms] have "set ns \<subseteq> set (map fst (pipe_graph pipe))" by simp
  from kahn_closed_walk [OF assms this, of "[]"] show ?thesis
    by (auto simp: build_pipeline_def topological_sort_def)
qed

theorem cyclic_graph_fails_witness:
  "parse_pipe_def cyclic_def ''cyclic'' = Inr cyclic_pipe \<and>
   closed_walk (pipe_graph cyclic_pipe) [''a'', ''b''] \<and>
   build_pipeline demo_env demo_context cyclic_pipe cyclic_def = Inl (CyclicGraphError [''a'', ''b'', ''c''])"
proof -
  have p: "parse_pipe_def cyclic_def ''cyclic'' = Inr cyclic_pipe" by code_simp
  have w: "closed_walk (pipe_graph cyclic_pipe) [''a'', ''b'']" by code_simp
  have b: "build_pipeline demo_env demo_context cyclic_pipe cyclic_def = Inl (CyclicGraphError [''a'', ''b'', ''c''])"
    by code_simp
  from cyclic_graph_fails [OF w, of demo_env demo_context cyclic_def] p w b show ?thesis by simp
qed

section \<open>Describing dependencies\<close>

lemma gen_dependencies_names:
  assumes ms: "getitem pipe_def ''modules'' = Inr (JArr ms)"
    and g: "gen_dependencies E pipe_def = Inr names"
  shows "set names = (\<Union>m \<in> set ms.
            {n. \<exists>t. getitem m ''type'' = Inr t \<and> n = percent_s E ''pipe'' t} \<union>
            {n. \<exists>t. embedded_type m = Inr t \<and> n = percent_s E ''pipe'' t})"
proof -
  let ?f = "\<lambda>module. bind (getitem module ''type'') (\<lambda>t.
                 bind (except_key_type (embedded_type module)) (\<lambda>et.
                   Inr (percent_s E ''pipe'' t #
                        (case et of Some x \<Rightarrow> [percent_s E ''pipe'' x] | None \<Rightarrow> []))))"
  let ?D = "\<lambda>m. {n. \<exists>t. getitem m ''type'' = Inr t \<and> n = percent_s E ''pipe'' t} \<union>
            {n. \<exists>t. embedded_type m = Inr t \<and> n = percent_s E ''pipe'' t}"
  from ms g obtain yss where yss: "list_all2 (\<lambda>m ys. ?f m = Inr ys) ms yss"
    and names: "names = concat yss"
    by (auto simp: gen_dependencies_def bind_Inr_iff mapM_Inr_iff)
  have one: "set ys = ?D m" if "?f m = Inr ys" for m ys
  proof -
    from that obtain t et where t: "getitem m ''type'' = Inr t"
      and et: "except_key_type (embedded_type m) = Inr et"
      and ys: "ys = percent_s E ''pipe'' t # (case et of Some x \<Rightarrow> [percent_s E ''pipe'' x] | None \<Rightarrow> [])"
      by (auto simp: bind_Inr_iff)
    show ?thesis
    proof (cases "embedded_type m")
      case (Inl e)
      with et have "et = None"
        by (auto simp: except_key_type_def split: py_error.splits)
      with t ys Inl show ?thesis by auto
    next
      case (Inr x)
      with et have "et = Some x" by (simp add: except_key_type_def)
      with t ys Inr show ?thesis by auto
    qed
  qed
  from yss one have "set (concat yss) = (\<Union>m \<in> set ms. ?D m)"
  proof (induction rule: list_all2_induct)
    case Nil
    then show ?case by simp
  next
    case (Cons m ms ys yss)
    from Cons.hyps(1) Cons.prems have "set ys = ?D m" by blast
    moreover from Cons.IH Cons.prems have "set (concat yss) = (\<Union>m \<in> set ms. ?D m)" by blast
    ultimately show ?case by simp
  qed
  with names show ?thesis by simp
qed

text \<open>
  Claim C9, as amended. With the describe-dependencies flag set, and when the sorter, the
  extraction of the dependencies and the extraction of the inputs raise nothing,
  \<open>build_pipeline\<close> makes no constructor call and returns the names of the module types
  of the pipe definition and of the modules embedded in them, each prefixed with
  \<open>pipe\<close>, sorted and without duplicates: as the result itself when the describe-input
  flag is not set, inside the record of both descriptions when it is.
\<close>

theorem describe_dependencies_result:
  assumes dd: "describe_dependencies c"
    and ts: "topological_sort (pipe_graph pipe) = Inr order"
    and tr: "truthy pipe_def"
    and ms: "getitem pipe_def ''modules'' = Inr (JArr ms)"
    and g: "gen_dependencies E pipe_def = Inr names"
    and inp: "extract_input E pipe_def = Inr inputs"
  shows "build_pipeline E c pipe pipe_def =
           Inr (if describe_input c then Described inputs (sort (remdups names))
                else Dependencies (sort (remdups names)), []) \<and>
         sorted (sort (remdups names)) \<and> distinct (sort (remdups names)) \<and>
         set (sort (remdups names)) = (\<Union>m \<in> set ms.
            {n. \<exists>t. getitem m ''type'' = Inr t \<and> n = percent_s E ''pipe'' t} \<union>
            {n. \<exists>t. embedded_type m = Inr t \<and> n = percent_s E ''pipe'' t})"
proof -
  from tr g have ed: "extract_dependencies E pipe_def = Inr (sort (remdups names))"
    by (simp add: extract_dependencies_def)
  from dd have d: "describe c" by (simp add: describe_def)
  from ts ed inp d dd have "build_pipeline E c pipe pipe_def =
           Inr (if describe_input c then Described inputs (sort (remdups names))
                else Dependencies (sort (remdups names)), [])"
    by (simp add: build_pipeline_def)
  moreover have "set (sort (remdups names)) = set names" by simp
  ultimately show ?thesis using gen_dependencies_names [OF ms g] by simp
qed

theorem describe_dependencies_result_witness:
  "build_pipeline demo_env (demo_context \<lparr> describe_dependencies := True \<rparr>) tail_pipe tail_def =
     Inr (Dependencies [''pipefetch'', ''pipesplit''], []) \<and>
   build_pipeline demo_env (demo_context \<lparr> describe_dependencies := True \<rparr>) demo_pipe demo_def =
     Inr (Dependencies [''pipefetch'', ''pipefilter'', ''pipeloop'', ''pipeoutput'', ''pipesplit'',
            ''pipestrconcat'', ''pipeunion''], [])"
proof -
  let ?c = "demo_context \<lparr> describe_dependencies := True \<rparr>"
  have dd: "describe_dependencies ?c" by simp
  have ts: "topological_sort (pipe_graph tail_pipe) = Inr [''sw_1'', ''sw_2'']" by code_simp
  have tr: "truthy tail_def" by code_simp
  have ms: "getitem tail_def ''modules'' =
      Inr (JArr [mk_module ''sw-1'' ''fetch'' [], mk_module ''sw-2'' ''split'' []])" by code_simp
  have g: "gen_dependencies demo_env tail_def = Inr [''pipefetch'', ''pipesplit'']" by code_simp
  have inp: "extract_input demo_env tail_def = Inr []" by code_simp
  have s: "sort (remdups [''pipefetch'', ''pipesplit'']) = [''pipefetch'', ''pipesplit'']" by code_simp
  have di: "\<not> describe_input ?c" by (simp add: demo_context_def)
  have other: "build_pipeline demo_env ?c demo_pipe demo_def =
     Inr (Dependencies [''pipefetch'', ''pipefilter'', ''pipeloop'', ''pipeoutput'', ''pipesplit'',
            ''pipestrconcat'', ''pipeunion''], [])" by code_simp
  from describe_dependencies_result [OF dd ts tr ms g inp] s di other show ?thesis by simp
qed

text \<open>With both flags set the result is the record of both descriptions, not the list of
  names.\<close>

theorem describe_both_flags:
  "describe_dependencies (demo_context \<lparr> describe_input := True, describe_dependencies := True \<rparr>) \<and>
   build_pipeline demo_env (demo_context \<lparr> describe_input := True, describe_dependencies := True \<rparr>)
       tail_pipe tail_def =
     Inr (Described [] [''pipefetch'', ''pipesplit''], []) \<and>
   Described [] [''pipefetch'', ''pipesplit''] \<noteq> Dependencies [''pipefetch'', ''pipesplit'']"
  by code_simp

section \<open>Deep copies\<close>

lemma map_of_ext:
  assumes "distinct (map fst (new @ m))" and "c \<in> fst ` set m"
  shows "map_of (new @ m) c = map_of m c"
proof -
  from assms have "c \<notin> fst ` set new" by auto
  then have "map_of new c = None" by (simp add: map_of_eq_None_iff)
  then show ?thesis by (simp add: map_add_def)
qed

lemma ren_ext:
  assumes "distinct (map fst (new @ m))" and "\<forall>c. x = VRef c \<longrightarrow> c \<in> fst ` set m"
  shows "ren (new @ m) x = ren m x"
proof (cases x)
  case (VRef c)
  with assms(2) have "c \<in> fst ` set m" by simp
  from map_of_ext [OF assms(1) this] VRef show ?thesis by (simp only: ren_def val.case)
qed (simp_all add: ren_def)

lemma map_ren_ext:
  assumes "distinct (map fst (new @ m))" and "\<forall>c. VRef c \<in> set xs \<longrightarrow> c \<in> fst ` set m"
  shows "map (ren (new @ m)) xs = map (ren m) xs"
  using assms by (auto intro!: ren_ext)

lemma heap_ok_vals:
  assumes "heap_ok h0" and "a < length h0"
  shows "list_all (val_ok h0) (obj_vals (h0 ! a))"
  using assms by (simp add: heap_ok_def list_all_length)

lemma copying_alloc:
  assumes c: "copying h0 h m P" and a: "a < length h0" and n: "map_of m a = None"
  shows "copying h0 (h @ [ob]) ((a, length h) # m) (insert a P)"
proof -
  from n have an: "a \<notin> fst ` set m" by (simp add: map_of_eq_None_iff)
  from c have r: "\<forall>(a, y) \<in> set m. a < length h0 \<and> length h0 \<le> y \<and> y < length h"
    by (simp add: copying_def)
  then have yn: "length h \<notin> snd ` set m" by force
  from c have d: "distinct (map fst m)" "distinct (map snd m)" by (simp_all add: copying_def)
  have d1: "distinct (map fst ([(a, length h)] @ m))" using d an by simp
  have "h ! y = obj_with (h0 ! a') (map (ren ((a, length h) # m)) (obj_vals (h0 ! a'))) \<and>
        (\<forall>c. VRef c \<in> set (obj_vals (h0 ! a')) \<longrightarrow> c \<in> fst ` set m)"
    if "(a', y) \<in> set m" "a' \<notin> P" for a' y
  proof -
    from c that have 1: "h ! y = obj_with (h0 ! a') (map (ren m) (obj_vals (h0 ! a')))"
      and 2: "\<forall>c. VRef c \<in> set (obj_vals (h0 ! a')) \<longrightarrow> c \<in> fst ` set m"
      by (auto simp: copying_def)
    have "map (ren ((a, length h) # m)) (obj_vals (h0 ! a')) = map (ren m) (obj_vals (h0 ! a'))"
      using map_ren_ext [OF d1 2] by (simp del: map_eq_conv)
    with 1 2 show ?thesis by (simp del: map_eq_conv)
  qed
  moreover have "(h @ [ob]) ! y = h ! y" if "(a', y) \<in> set m" for a' y
    using r that by (auto simp: nth_append)
  ultimately have done_ok: "\<forall>(a', y) \<in> set ((a, length h) # m). a' \<notin> insert a P \<longrightarrow>
          (h @ [ob]) ! y = obj_with (h0 ! a') (map (ren ((a, length h) # m)) (obj_vals (h0 ! a'))) \<and>
          (\<forall>c. VRef c \<in> set (obj_vals (h0 ! a')) \<longrightarrow> c \<in> fst ` set ((a, length h) # m))"
    by auto
  from c have old: "length h0 \<le> length h" "\<forall>a < length h0. h ! a = h0 ! a"
    and cov: "\<forall>b. length h0 \<le> b \<and> b < length h \<longrightarrow> b \<in> snd ` set m"
    by (simp_all add: copying_def)
  have "\<forall>a < length h0. (h @ [ob]) ! a = h0 ! a" using old by (simp add: nth_append)
  moreover have "\<forall>(a, y) \<in> set ((a, length h) # m). a < length h0 \<and> length h0 \<le> y \<and> y < length (h @ [ob])"
    using r a old by auto
  moreover have "\<forall>b. length h0 \<le> b \<and> b < length (h @ [ob]) \<longrightarrow> b \<in> snd ` set ((a, length h) # m)"
    using cov by (auto simp: less_Suc_eq)
  ultimately show ?thesis
    using old d an yn done_ok unfolding copying_def by simp
qed

lemma finite_unmemo: "finite (unmemo h0 m)"
  by (simp add: unmemo_def)

lemma card_unmemo_Cons:
  assumes "a < length h0" and "a \<notin> fst ` set m"
  shows "card (unmemo h0 ((a, y) # m)) < card (unmemo h0 m)"
proof -
  have "unmemo h0 ((a, y) # m) = unmemo h0 m - {a}" by (auto simp: unmemo_def)
  moreover from assms have "a \<in> unmemo h0 m" by (simp add: unmemo_def)
  ultimately show ?thesis
    using card_Diff1_less [OF finite_unmemo [of h0 m], of a] by simp
qed

lemma card_unmemo_ext: "card (unmemo h0 (new @ m)) \<le> card (unmemo h0 m)"
  by (rule card_mono [OF finite_unmemo]) (auto simp: unmemo_def)

lemma copying_fill:
  assumes c: "copying h0 h m (insert a P)" and mem: "(a, y) \<in> set m"
    and cl: "\<forall>c. VRef c \<in> set (obj_vals (h0 ! a)) \<longrightarrow> c \<in> fst ` set m"
  shows "copying h0 (h[y := obj_with (h0 ! a) (map (ren m) (obj_vals (h0 ! a)))]) m P"
proof -
  let ?h = "h[y := obj_with (h0 ! a) (map (ren m) (obj_vals (h0 ! a)))]"
  from c have old: "length h0 \<le> length h" "\<forall>a < length h0. h ! a = h0 ! a"
    and r: "\<forall>(a, y) \<in> set m. a < length h0 \<and> length h0 \<le> y \<and> y < length h"
    and d: "distinct (map fst m)" "distinct (map snd m)"
    and cov: "\<forall>b. length h0 \<le> b \<and> b < length h \<longrightarrow> b \<in> snd ` set m"
    and dn: "\<forall>(a', y') \<in> set m. a' \<notin> insert a P \<longrightarrow>
          h ! y' = obj_with (h0 ! a') (map (ren m) (obj_vals (h0 ! a'))) \<and>
          (\<forall>c. VRef c \<in> set (obj_vals (h0 ! a')) \<longrightarrow> c \<in> fst ` set m)"
    by (simp_all add: copying_def)
  from r mem have y: "length h0 \<le> y" "y < length h" by auto
  have o: "\<forall>a < length h0. ?h ! a = h0 ! a" using old y by simp
  have "?h ! y' = obj_with (h0 ! a') (map (ren m) (obj_vals (h0 ! a'))) \<and>
          (\<forall>c. VRef c \<in> set (obj_vals (h0 ! a')) \<longrightarrow> c \<in> fst ` set m)"
    if "(a', y') \<in> set m" "a' \<notin> P" for a' y'
  proof (cases "a' = a")
    case True
    with that(1) mem d(1) have "y' = y" by (metis eq_key_imp_eq_value)
    with True y cl show ?thesis by simp
  next
    case False
    have "y' \<noteq> y"
    proof
      assume "y' = y"
      with that(1) mem d(2) have "a' = a"
        by (metis distinct_map fst_conv inj_onD snd_conv)
      with False show False by simp
    qed
    with dn that False show ?thesis by auto
  qed
  then have "\<forall>(a', y') \<in> set m. a' \<notin> P \<longrightarrow>
          ?h ! y' = obj_with (h0 ! a') (map (ren m) (obj_vals (h0 ! a'))) \<and>
          (\<forall>c. VRef c \<in> set (obj_vals (h0 ! a')) \<longrightarrow> c \<in> fst ` set m)" by auto
  with old(1) o r d cov show ?thesis unfolding copying_def by simp
qed

text \<open>The copy returns when the bound is above the number of containers not yet copied,
  keeps the invariant, and returns the value renamed along the memo.\<close>

lemma deepcopy_spec:
  assumes ok0: "heap_ok h0"
  shows "copying h0 h m P \<Longrightarrow> val_ok h0 x \<Longrightarrow> card (unmemo h0 m) < n \<Longrightarrow>
           \<exists>h' new. deepcopy n x h m = Some (ren (new @ m) x, h', new @ m) \<and>
                    copying h0 h' (new @ m) P \<and> (\<forall>c. x = VRef c \<longrightarrow> c \<in> fst ` set (new @ m))"
    and "copying h0 h m P \<Longrightarrow> list_all (val_ok h0) xs \<Longrightarrow> card (unmemo h0 m) < n \<Longrightarrow>
           \<exists>h' new. deepcopy_all n xs h m = Some (map (ren (new @ m)) xs, h', new @ m) \<and>
                    copying h0 h' (new @ m) P \<and> (\<forall>c. VRef c \<in> set xs \<longrightarrow> c \<in> fst ` set (new @ m))"
proof (induction n x h m and n xs h m arbitrary: P and P rule: deepcopy_deepcopy_all.induct)
  case (1 x h m)
  then show ?case by simp
next
  case (2 n h m)
  then show ?case by (intro exI [of _ h] exI [of _ "[]"]) (simp add: ren_def)
next
  case (3 n b h m)
  then show ?case by (intro exI [of _ h] exI [of _ "[]"]) (simp add: ren_def)
next
  case (4 n i h m)
  then show ?case by (intro exI [of _ h] exI [of _ "[]"]) (simp add: ren_def)
next
  case (5 n s h m)
  then show ?case by (intro exI [of _ h] exI [of _ "[]"]) (simp add: ren_def)
next
  case (6 n a h m)
  show ?case
  proof (cases "map_of m a")
    case (Some y)
    then have "a \<in> fst ` set m" by (auto dest: map_of_SomeD intro: rev_image_eqI)
    with Some "6.prems"(1) show ?thesis
      by (intro exI [of _ h] exI [of _ "[]"]) (simp add: ren_def)
  next
    case None
    from "6.prems"(2) have a0: "a < length h0" by (simp add: val_ok_def)
    from "6.prems"(1) have old: "length h0 \<le> length h" "h ! a = h0 ! a"
      using a0 by (simp_all add: copying_def)
    with a0 have ah: "a < length h" by simp
    from None have an: "a \<notin> fst ` set m" by (simp add: map_of_eq_None_iff)
    let ?y = "length h"
    let ?m1 = "(a, ?y) # m"
    let ?h1 = "h @ [obj_with (h ! a) []]"
    have c1: "copying h0 ?h1 ?m1 (insert a P)"
      by (rule copying_alloc [OF "6.prems"(1) a0 None])
    have v1: "list_all (val_ok h0) (obj_vals (h ! a))"
      using heap_ok_vals [OF ok0 a0] old by simp
    have k1: "card (unmemo h0 ?m1) < n"
      using card_unmemo_Cons [OF a0 an, of ?y] "6.prems"(3) by simp
    from "6.IH" [OF None ah refl c1 v1 k1] obtain h2 new
      where dc: "deepcopy_all n (obj_vals (h ! a)) ?h1 ?m1 =
                   Some (map (ren (new @ ?m1)) (obj_vals (h ! a)), h2, new @ ?m1)"
        and c2: "copying h0 h2 (new @ ?m1) (insert a P)"
        and cl: "\<forall>c. VRef c \<in> set (obj_vals (h ! a)) \<longrightarrow> c \<in> fst ` set (new @ ?m1)"
      by blast
    let ?m2 = "new @ ?m1"
    have mem: "(a, ?y) \<in> set ?m2" by simp
    from c2 have d2: "distinct (map fst ?m2)" by (simp add: copying_def)
    with mem have mo: "map_of ?m2 a = Some ?y" by (simp only: map_of_is_SomeI)
    have c3: "copying h0 (h2[?y := obj_with (h0 ! a) (map (ren ?m2) (obj_vals (h0 ! a)))]) ?m2 P"
      by (rule copying_fill [OF c2 mem]) (use cl old in simp)
    have res: "deepcopy (Suc n) (VRef a) h m =
        Some (VRef ?y, h2[?y := obj_with (h0 ! a) (map (ren ?m2) (obj_vals (h0 ! a)))], ?m2)"
      using None ah dc old by (simp add: Let_def)
    have eq: "?m2 = (new @ [(a, ?y)]) @ m" by simp
    have r: "ren ?m2 (VRef a) = VRef ?y" using mo by (simp only: ren_def val.case option.case)
    have inm: "a \<in> fst ` set ?m2" by force
    show ?thesis
      apply (rule exI [of _ "h2[?y := obj_with (h0 ! a) (map (ren ?m2) (obj_vals (h0 ! a)))]"])
      apply (rule exI [of _ "new @ [(a, ?y)]"])
      using res c3 r inm unfolding eq [symmetric] by simp
  qed
next
  case (7 n h m)
  then show ?case by (intro exI [of _ h] exI [of _ "[]"]) simp
next
  case (8 n x xs h m)
  from "8.prems"(2) have vx: "val_ok h0 x" and vxs: "list_all (val_ok h0) xs" by simp_all
  from "8.IH"(1) [OF "8.prems"(1) vx "8.prems"(3)] obtain h1 new1
    where d1: "deepcopy n x h m = Some (ren (new1 @ m) x, h1, new1 @ m)"
      and c1: "copying h0 h1 (new1 @ m) P"
      and cl1: "\<forall>c. x = VRef c \<longrightarrow> c \<in> fst ` set (new1 @ m)" by blast
  have k1: "card (unmemo h0 (new1 @ m)) < n"
    using card_unmemo_ext [of h0 new1 m] "8.prems"(3) by simp
  from "8.IH"(2) [OF d1 refl refl c1 vxs k1] obtain h2 new2
    where d2: "deepcopy_all n xs h1 (new1 @ m) =
                 Some (map (ren (new2 @ new1 @ m)) xs, h2, new2 @ new1 @ m)"
      and c2: "copying h0 h2 (new2 @ new1 @ m) P"
      and cl2: "\<forall>c. VRef c \<in> set xs \<longrightarrow> c \<in> fst ` set (new2 @ new1 @ m)" by blast
  from c2 have dd: "distinct (map fst (new2 @ new1 @ m))" by (simp add: copying_def)
  have rx: "ren (new2 @ new1 @ m) x = ren (new1 @ m) x"
    by (rule ren_ext [OF dd cl1])
  have res: "deepcopy_all n (x # xs) h m =
      Some (map (ren ((new2 @ new1) @ m)) (x # xs), h2, (new2 @ new1) @ m)"
    using d1 d2 rx by simp
  have cl: "\<forall>c. VRef c \<in> set (x # xs) \<longrightarrow> c \<in> fst ` set ((new2 @ new1) @ m)"
    using cl1 cl2 by auto
  from res c2 cl show ?case
    by (intro exI [of _ h2] exI [of _ "new2 @ new1"]) simp
qed

lemma reaches_closed:
  assumes "reaches h x b" and "closed_in h R" and "\<forall>c. x = VRef c \<longrightarrow> c \<in> R"
  shows "b \<in> R"
  using assms
proof (induction rule: reaches.induct)
  case (here a)
  then show ?case by simp
next
  case (step a x b)
  from step.prems have "a \<in> R" by simp
  with step.prems(1) step.hyps(2) have "\<forall>c. x = VRef c \<longrightarrow> c \<in> R"
    by (auto simp: closed_in_def)
  with step.IH step.prems(1) show ?case by simp
qed

lemma content_agree:
  assumes "closed_in h1 R" and "\<forall>a \<in> R. a < length h2 \<and> h2 ! a = h1 ! a"
    and "\<forall>c. x = VRef c \<longrightarrow> c \<in> R"
  shows "content n h2 x = content n h1 x"
  using assms(3)
proof (induction n arbitrary: x)
  case 0
  then show ?case by simp
next
  case (Suc n)
  show ?case
  proof (cases x)
    case (VRef a)
    with Suc.prems have aR: "a \<in> R" by simp
    with assms have a1: "a < length h1" and a2: "a < length h2" and eq: "h2 ! a = h1 ! a"
      and cl: "\<forall>c. VRef c \<in> set (obj_vals (h1 ! a)) \<longrightarrow> c \<in> R"
      by (auto simp: closed_in_def)
    have "content n h2 v = content n h1 v" if "v \<in> set (obj_vals (h1 ! a))" for v
      using that cl by (intro Suc.IH) auto
    with VRef a1 a2 eq show ?thesis
      by (cases "h1 ! a") (auto simp: image_iff)
  qed simp_all
qed

lemma map_zip_ren:
  assumes "\<forall>v \<in> snd ` set kvs. f (g v) = f0 v"
  shows "map (\<lambda>kv. (fst kv, f (snd kv))) (zip (map fst kvs) (map g (map snd kvs)))
          = map (\<lambda>kv. (fst kv, f0 (snd kv))) kvs"
  using assms by (induction kvs) auto

lemma content_copy:
  assumes c: "copying h0 h' m {}" and x: "\<forall>c. x = VRef c \<longrightarrow> c \<in> fst ` set m"
  shows "content n h' (ren m x) = content n h0 x"
  using x
proof (induction n arbitrary: x)
  case 0
  then show ?case by simp
next
  case (Suc n)
  show ?case
  proof (cases x)
    case (VRef a)
    with Suc.prems obtain y where mem: "(a, y) \<in> set m" by auto
    from c have d: "distinct (map fst m)" by (simp add: copying_def)
    with mem have mo: "map_of m a = Some y" by (simp only: map_of_is_SomeI)
    from c mem have a0: "a < length h0" and y: "y < length h'"
      and ob: "h' ! y = obj_with (h0 ! a) (map (ren m) (obj_vals (h0 ! a)))"
      and cl: "\<forall>c. VRef c \<in> set (obj_vals (h0 ! a)) \<longrightarrow> c \<in> fst ` set m"
      by (auto simp: copying_def)
    have ih: "content n h' (ren m v) = content n h0 v" if "v \<in> set (obj_vals (h0 ! a))" for v
      using that cl by (intro Suc.IH) auto
    have r: "ren m x = VRef y" using VRef mo by (simp add: ren_def)
    show ?thesis
    proof (cases "h0 ! a")
      case (ODict kvs)
      have "map (\<lambda>kv. (fst kv, content n h' (snd kv))) (zip (map fst kvs) (map (ren m) (map snd kvs)))
          = map (\<lambda>kv. (fst kv, content n h0 (snd kv))) kvs"
        using ih ODict by (intro map_zip_ren) auto
      with r VRef a0 y ob ODict show ?thesis by simp
    next
      case (OList vs)
      with ih have "map (content n h') (map (ren m) vs) = map (content n h0) vs" by simp
      with r VRef a0 y ob OList show ?thesis by simp
    qed
  qed (simp_all add: ren_def)
qed

lemma obj_vals_obj_with:
  "length vs = length (obj_vals ob) \<Longrightarrow> obj_vals (obj_with ob vs) = vs"
  by (cases ob) simp_all

lemma copying_start: "copying h h [] {}"
  by (simp add: copying_def)

lemma card_unmemo_start: "card (unmemo h []) = length h"
proof -
  have "unmemo h [] = {..<length h}" by (auto simp: unmemo_def)
  then show ?thesis by simp
qed

lemma deepcopy_top_spec:
  assumes "heap_ok h" and "val_ok h x"
  shows "\<exists>h' m. deepcopy_top h x = Some (ren m x, h') \<and> copying h h' m {} \<and>
           (\<forall>c. x = VRef c \<longrightarrow> c \<in> fst ` set m)"
proof -
  have "card (unmemo h []) < Suc (length h)" by (simp add: card_unmemo_start)
  from deepcopy_spec(1) [OF assms(1) copying_start assms(2) this] obtain h' new
    where "deepcopy (Suc (length h)) x h [] = Some (ren (new @ []) x, h', new @ [])"
      and "copying h h' (new @ []) {}" and "\<forall>c. x = VRef c \<longrightarrow> c \<in> fst ` set (new @ [])"
    by blast
  then show ?thesis
    by (intro exI [of _ h'] exI [of _ new]) (simp add: deepcopy_top_def)
qed

lemma copying_old:
  assumes "copying h0 h m P"
  shows "length h0 \<le> length h" and "\<forall>a < length h0. h ! a = h0 ! a"
  using assms by (simp_all add: copying_def)

lemma copying_memo:
  assumes "copying h0 h m P" and "(a, y) \<in> set m"
  shows "a < length h0" and "length h0 \<le> y" and "y < length h"
proof -
  from assms(1) have "\<forall>(a, y) \<in> set m. a < length h0 \<and> length h0 \<le> y \<and> y < length h"
    by (simp add: copying_def)
  with assms(2) show "a < length h0" and "length h0 \<le> y" and "y < length h" by auto
qed

lemma copying_distinct:
  assumes "copying h0 h m P"
  shows "distinct (map fst m)" and "distinct (map snd m)"
  using assms by (simp_all add: copying_def)

lemma copying_cover:
  assumes "copying h0 h m P" and "length h0 \<le> b" and "b < length h"
  shows "b \<in> snd ` set m"
proof -
  from assms(1) have "\<forall>b. length h0 \<le> b \<and> b < length h \<longrightarrow> b \<in> snd ` set m"
    by (simp add: copying_def)
  with assms(2,3) show ?thesis by simp
qed

lemma copying_done:
  assumes "copying h0 h m P" and "(a, y) \<in> set m" and "a \<notin> P"
  shows "h ! y = obj_with (h0 ! a) (map (ren m) (obj_vals (h0 ! a)))"
    and "\<forall>c. VRef c \<in> set (obj_vals (h0 ! a)) \<longrightarrow> c \<in> fst ` set m"
proof -
  from assms(1) have "\<forall>(a, y) \<in> set m. a \<notin> P \<longrightarrow>
          h ! y = obj_with (h0 ! a) (map (ren m) (obj_vals (h0 ! a))) \<and>
          (\<forall>c. VRef c \<in> set (obj_vals (h0 ! a)) \<longrightarrow> c \<in> fst ` set m)"
    by (simp add: copying_def)
  with assms(2,3) show "h ! y = obj_with (h0 ! a) (map (ren m) (obj_vals (h0 ! a)))"
    and "\<forall>c. VRef c \<in> set (obj_vals (h0 ! a)) \<longrightarrow> c \<in> fst ` set m" by auto
qed

lemma copying_target_vals:
  assumes c: "copying h h' m {}" and ab: "(a, b) \<in> set m"
  shows "obj_vals (h' ! b) = map (ren m) (obj_vals (h ! a))"
proof -
  have "h' ! b = obj_with (h ! a) (map (ren m) (obj_vals (h ! a)))"
    by (rule copying_done(1) [OF c ab]) simp
  then show ?thesis by (simp add: obj_vals_obj_with)
qed

lemma copying_target_refs:
  assumes c: "copying h h' m {}" and b: "length h \<le> b" "b < length h'"
    and e: "VRef e \<in> set (obj_vals (h' ! b))"
  shows "length h \<le> e \<and> e < length h'"
proof -
  from copying_cover [OF c b] obtain a where ab: "(a, b) \<in> set m" by auto
  have cl: "\<forall>c. VRef c \<in> set (obj_vals (h ! a)) \<longrightarrow> c \<in> fst ` set m"
    by (rule copying_done(2) [OF c ab]) simp
  from e copying_target_vals [OF c ab] obtain v where v: "v \<in> set (obj_vals (h ! a))"
    and ev: "VRef e = ren m v" by auto
  show ?thesis
  proof (cases v)
    case (VRef c0)
    with v cl obtain y where cy: "(c0, y) \<in> set m" by auto
    from cy copying_distinct(1) [OF c] have "map_of m c0 = Some y" by (simp only: map_of_is_SomeI)
    with ev VRef have "e = y" by (simp add: ren_def)
    with copying_memo [OF c cy] show ?thesis by simp
  qed (use ev in \<open>simp_all add: ren_def\<close>)
qed

lemma copying_region:
  assumes c: "copying h h' m {}"
  shows "closed_in h' {length h ..< length h'}"
    and "list_all (\<lambda>ob. list_all (val_ok h') (obj_vals ob)) (drop (length h) h')"
proof -
  show "closed_in h' {length h ..< length h'}"
    unfolding closed_in_def
  proof (intro ballI conjI allI impI)
    fix b assume "b \<in> {length h ..< length h'}"
    then show "b < length h'" by simp
  next
    fix b e assume b: "b \<in> {length h ..< length h'}" and e: "VRef e \<in> set (obj_vals (h' ! b))"
    from b have "length h \<le> b" "b < length h'" by simp_all
    from copying_target_refs [OF c this e] show "e \<in> {length h ..< length h'}" by simp
  qed
  show "list_all (\<lambda>ob. list_all (val_ok h') (obj_vals ob)) (drop (length h) h')"
    unfolding list_all_iff
  proof (intro ballI)
    fix ob v assume ob: "ob \<in> set (drop (length h) h')" and v: "v \<in> set (obj_vals ob)"
    from ob obtain i where i: "i < length (drop (length h) h')" and obi: "ob = drop (length h) h' ! i"
      by (auto simp: in_set_conv_nth)
    then have b: "length h \<le> length h + i" "length h + i < length h'" and ob': "ob = h' ! (length h + i)"
      by simp_all
    show "val_ok h' v"
    proof (cases v)
      case (VRef e)
      with v ob' have "VRef e \<in> set (obj_vals (h' ! (length h + i)))" by simp
      from copying_target_refs [OF c b this] VRef show ?thesis by (simp add: val_ok_def)
    qed (simp_all add: val_ok_def)
  qed
qed

lemma val_ok_mono: "val_ok h x \<Longrightarrow> length h \<le> length h' \<Longrightarrow> val_ok h' x"
  by (cases x) (auto simp: val_ok_def)

lemma list_all_take_drop:
  "list_all P xs = (list_all P (take n xs) \<and> list_all P (drop n xs))"
proof -
  have "list_all P (take n xs @ drop n xs) = (list_all P (take n xs) \<and> list_all P (drop n xs))"
    by (rule list_all_append)
  then show ?thesis by simp
qed

lemma heap_ok_split:
  "heap_ok h = (list_all (\<lambda>ob. list_all (val_ok h) (obj_vals ob)) (take n h) \<and>
                list_all (\<lambda>ob. list_all (val_ok h) (obj_vals ob)) (drop n h))"
  unfolding heap_ok_def by (rule list_all_take_drop)

text \<open>What a copy made with an empty memo does: it returns; the store it started from is
  unchanged; the new store is well formed; the containers it made refer only to each
  other; and the copy has the content of the original.\<close>

lemma deepcopy_top_props:
  assumes ok: "heap_ok h" and x: "val_ok h x" and d: "deepcopy_top h x = Some (x', h')"
  shows "length h \<le> length h'" and "\<forall>a < length h. h' ! a = h ! a" and "heap_ok h'"
    and "closed_in h' {length h ..< length h'}"
    and "\<forall>c. x' = VRef c \<longrightarrow> length h \<le> c \<and> c < length h'"
    and "content n h' x' = content n h x"
proof -
  from deepcopy_top_spec [OF ok x] d obtain m where x': "x' = ren m x"
    and c: "copying h h' m {}" and xm: "\<forall>c. x = VRef c \<longrightarrow> c \<in> fst ` set m" by auto
  from c show len: "length h \<le> length h'" and old: "\<forall>a < length h. h' ! a = h ! a"
    by (rule copying_old)+
  have "take (length h) h' = h"
    using len old by (simp add: list_eq_iff_nth_eq)
  moreover from ok len have "list_all (\<lambda>ob. list_all (val_ok h') (obj_vals ob)) h"
    by (auto simp: heap_ok_def list_all_iff intro: val_ok_mono)
  ultimately show "heap_ok h'"
    using copying_region(2) [OF c] heap_ok_split [of h' "length h"] by simp
  show "closed_in h' {length h ..< length h'}" by (rule copying_region(1) [OF c])
  show "\<forall>c. x' = VRef c \<longrightarrow> length h \<le> c \<and> c < length h'"
  proof (intro allI impI)
    fix e assume e: "x' = VRef e"
    with x' obtain c0 where c0: "x = VRef c0" by (cases x) (auto simp: ren_def)
    with xm obtain y where cy: "(c0, y) \<in> set m" by auto
    from cy copying_distinct(1) [OF c] have "map_of m c0 = Some y" by (simp only: map_of_is_SomeI)
    with e x' c0 have "e = y" by (simp add: ren_def)
    with copying_memo [OF c cy] show "length h \<le> e \<and> e < length h'" by simp
  qed
  show "content n h' x' = content n h x"
    unfolding x' by (rule content_copy [OF c xm])
qed

lemma length_apply_writes: "length (apply_writes ws h) = length h"
  unfolding apply_writes_def by (induction ws arbitrary: h) simp_all

lemma apply_writes_outside:
  assumes "writes_within R ws" and "a \<notin> R"
  shows "apply_writes ws h ! a = h ! a"
  using assms unfolding apply_writes_def writes_within_def
proof (induction ws arbitrary: h)
  case Nil
  then show ?case by simp
next
  case (Cons w ws)
  from Cons.prems have "fst w \<noteq> a" by auto
  moreover from Cons.prems have "fold (\<lambda>w h. h[fst w := snd w]) ws (h[fst w := snd w]) ! a = (h[fst w := snd w]) ! a"
    by (intro Cons.IH) auto
  ultimately show ?case by simp
qed

lemma apply_writes_ok:
  assumes "writes_within R ws" and "heap_ok h" and "\<forall>a \<in> R. a < length h"
  shows "heap_ok (apply_writes ws h)"
  using assms unfolding apply_writes_def writes_within_def
proof (induction ws arbitrary: h)
  case Nil
  then show ?case by simp
next
  case (Cons w ws)
  let ?h = "h[fst w := snd w]"
  have "list_all (val_ok ?h) (obj_vals ob)" if "ob \<in> set ?h" for ob
  proof -
    from that have "ob = snd w \<or> ob \<in> set h" by (auto dest: set_update_subset_insert [THEN subsetD])
    then show ?thesis
    proof
      assume "ob = snd w"
      with Cons.prems(1,3) show ?thesis
        by (auto simp: list_all_iff val_ok_def split: val.splits)
    next
      assume "ob \<in> set h"
      with Cons.prems(2) show ?thesis
        by (auto simp: heap_ok_def list_all_iff val_ok_def split: val.splits)
    qed
  qed
  then have ok2: "heap_ok ?h" by (simp add: heap_ok_def list_all_iff)
  from Cons.prems(1) have w2: "\<forall>w \<in> set ws. fst w \<in> R \<and> (\<forall>c. VRef c \<in> set (obj_vals (snd w)) \<longrightarrow> c \<in> R)"
    by simp
  from Cons.prems(3) have r2: "\<forall>a \<in> R. a < length ?h" by simp
  have "heap_ok (fold (\<lambda>w h. h[fst w := snd w]) ws ?h)" by (rule Cons.IH [OF w2 ok2 r2])
  then show ?case by simp
qed

lemma writes_within_mono: "writes_within R ws \<Longrightarrow> R \<subseteq> R' \<Longrightarrow> writes_within R' ws"
  unfolding writes_within_def by blast

lemma heap_ok_closed: "heap_ok h \<Longrightarrow> closed_in h {..<length h}"
  by (auto simp: heap_ok_def closed_in_def list_all_length val_ok_def in_set_conv_nth split: val.splits)

lemma reaches_region:
  assumes "closed_in h R" and "\<forall>c. x = VRef c \<longrightarrow> c \<in> R"
  shows "{a. reaches h x a} \<subseteq> R"
  using reaches_closed [OF _ assms] by auto

section \<open>Branches of a split\<close>

text \<open>
  Two branches \<open>i\<close> and \<open>j\<close> of a split are at the same item of the input, in a
  well-formed store. The record that branch \<open>i\<close> receives has the content of the upstream
  record. Whatever is then written in place into the record received on branch \<open>i\<close>,
  before branch \<open>j\<close> asks for its record (\<open>ws1\<close>) and after (\<open>ws2\<close>), branch \<open>j\<close>
  receives a record, and that record has the content of the upstream record, after the
  writes as before.
\<close>

theorem two_branches_independent:
  assumes ok: "heap_ok h0" and src: "list_all (val_ok h0) (source s)"
    and ij: "i \<noteq> j" and i: "i < length (cursors s)" and j: "j < length (cursors s)"
    and ki: "cursors s ! i = k" and kj: "cursors s ! j = k" and k: "k < length (source s)"
  shows "\<exists>x1 h1 s1.
           branch_next s h0 i = Some (Inr (x1, h1, s1)) \<and>
           (\<forall>n. content n h1 x1 = content n h0 (source s ! k)) \<and>
           (\<forall>ws1 ws2.
              writes_within {a. reaches h1 x1 a} ws1 \<and> writes_within {a. reaches h1 x1 a} ws2 \<longrightarrow>
              (\<exists>x2 h2 s2.
                 branch_next s1 (apply_writes ws1 h1) j = Some (Inr (x2, h2, s2)) \<and>
                 (\<forall>n. content n (apply_writes ws2 h2) x2 = content n h0 (source s ! k))))"
proof -
  let ?x = "source s ! k"
  from src k have vx: "val_ok h0 ?x" by (simp add: list_all_length)
  from deepcopy_top_spec [OF ok vx] obtain x1 h1 where d1: "deepcopy_top h0 ?x = Some (x1, h1)"
    by blast
  note p1 = deepcopy_top_props [OF ok vx d1]
  let ?s1 = "s \<lparr> cursors := (cursors s)[i := Suc k] \<rparr>"
  let ?R1 = "{length h0 ..< length h1}"
  have n1: "branch_next s h0 i = Some (Inr (x1, h1, ?s1))"
    using i ki k d1 by (simp add: branch_next_def)
  have c1: "\<forall>n. content n h1 x1 = content n h0 ?x" using p1(6) by simp
  have sub1: "{a. reaches h1 x1 a} \<subseteq> ?R1"
    by (rule reaches_region [OF p1(4)]) (use p1(5) in simp)
  have rest: "\<exists>x2 h2 s2.
                 branch_next ?s1 (apply_writes ws1 h1) j = Some (Inr (x2, h2, s2)) \<and>
                 (\<forall>n. content n (apply_writes ws2 h2) x2 = content n h0 ?x)"
    if w: "writes_within {a. reaches h1 x1 a} ws1" "writes_within {a. reaches h1 x1 a} ws2"
    for ws1 ws2
  proof -
    from w sub1 have w1: "writes_within ?R1 ws1" and w2: "writes_within ?R1 ws2"
      by (auto intro: writes_within_mono)
    let ?h1 = "apply_writes ws1 h1"
    have len1: "length ?h1 = length h1" by (rule length_apply_writes)
    have ok1: "heap_ok ?h1"
      by (rule apply_writes_ok [OF w1 p1(3)]) simp
    have old1: "\<forall>a \<in> {..<length h0}. a < length ?h1 \<and> ?h1 ! a = h0 ! a"
    proof
      fix a assume "a \<in> {..<length h0}"
      then have a: "a < length h0" by simp
      then have "a \<notin> ?R1" by simp
      from apply_writes_outside [OF w1 this] p1(1,2) a len1
      show "a < length ?h1 \<and> ?h1 ! a = h0 ! a" by simp
    qed
    from vx p1(1) len1 have vx1: "val_ok ?h1 ?x" by (auto intro: val_ok_mono)
    from deepcopy_top_spec [OF ok1 vx1] obtain x2 h2 where d2: "deepcopy_top ?h1 ?x = Some (x2, h2)"
      by blast
    note p2 = deepcopy_top_props [OF ok1 vx1 d2]
    let ?s2 = "?s1 \<lparr> cursors := (cursors ?s1)[j := Suc k] \<rparr>"
    have n2: "branch_next ?s1 ?h1 j = Some (Inr (x2, h2, ?s2))"
      using j ij kj k d2 by (simp add: branch_next_def)
    let ?R2 = "{length ?h1 ..< length h2}"
    have agree2: "\<forall>a \<in> ?R2. a < length (apply_writes ws2 h2) \<and> apply_writes ws2 h2 ! a = h2 ! a"
    proof
      fix a assume a: "a \<in> ?R2"
      with len1 have "a \<notin> ?R1" by simp
      from apply_writes_outside [OF w2 this] a show
        "a < length (apply_writes ws2 h2) \<and> apply_writes ws2 h2 ! a = h2 ! a"
        by (simp add: length_apply_writes)
    qed
    have "content n (apply_writes ws2 h2) x2 = content n h0 ?x" for n
    proof -
      have "content n (apply_writes ws2 h2) x2 = content n h2 x2"
        by (rule content_agree [OF p2(4) agree2]) (use p2(5) in simp)
      also have "\<dots> = content n ?h1 ?x" by (rule p2(6))
      also have "\<dots> = content n h0 ?x"
        by (rule content_agree [OF heap_ok_closed [OF ok] old1]) (use vx in \<open>auto simp: val_ok_def\<close>)
      finally show ?thesis .
    qed
    with n2 show ?thesis by blast
  qed
  from n1 c1 rest show ?thesis by blast
qed

theorem two_branches_independent_example:
  "branch_next xs_split xs_heap 0 =
     Some (Inr (VRef 2, xs_heap @ [ODict [(''x'', VInt 1)]], xs_split \<lparr> cursors := [1, 0] \<rparr>)) \<and>
   writes_within {a. reaches (xs_heap @ [ODict [(''x'', VInt 1)]]) (VRef 2) a} [(2, ODict [(''x'', VInt 99)])] \<and>
   branch_next (xs_split \<lparr> cursors := [1, 0] \<rparr>)
       (apply_writes [(2, ODict [(''x'', VInt 99)])] (xs_heap @ [ODict [(''x'', VInt 1)]])) 1 =
     Some (Inr (VRef 3, xs_heap @ [ODict [(''x'', VInt 99)], ODict [(''x'', VInt 1)]],
                xs_split \<lparr> cursors := [1, 1] \<rparr>)) \<and>
   content 2 (apply_writes [(2, ODict [(''x'', VInt 7)])]
                (xs_heap @ [ODict [(''x'', VInt 99)], ODict [(''x'', VInt 1)]])) (VRef 3)
     = Dict [(''x'', Atom (VInt 1))] \<and>
   content 2 xs_heap (VRef 0) = Dict [(''x'', Atom (VInt 1))]"
proof -
  have ok: "heap_ok xs_heap" by code_simp
  have src: "list_all (val_ok xs_heap) (source xs_split)" by code_simp
  have ij: "(0::nat) \<noteq> 1" by simp
  have i: "0 < length (cursors xs_split)" and j: "1 < length (cursors xs_split)" by code_simp+
  have ki: "cursors xs_split ! 0 = 0" and kj: "cursors xs_split ! 1 = 0"
    and k: "0 < length (source xs_split)" by code_simp+
  have n1: "branch_next xs_split xs_heap 0 =
     Some (Inr (VRef 2, xs_heap @ [ODict [(''x'', VInt 1)]], xs_split \<lparr> cursors := [1, 0] \<rparr>))"
    by code_simp
  have w: "writes_within {a. reaches (xs_heap @ [ODict [(''x'', VInt 1)]]) (VRef 2) a} [(2, ODict [(''x'', VInt 99)])]"
    by (simp add: writes_within_def xs_heap_def reaches.here)
  have n2: "branch_next (xs_split \<lparr> cursors := [1, 0] \<rparr>)
       (apply_writes [(2, ODict [(''x'', VInt 99)])] (xs_heap @ [ODict [(''x'', VInt 1)]])) 1 =
     Some (Inr (VRef 3, xs_heap @ [ODict [(''x'', VInt 99)], ODict [(''x'', VInt 1)]],
                xs_split \<lparr> cursors := [1, 1] \<rparr>))"
    by code_simp
  have c: "content 2 (apply_writes [(2, ODict [(''x'', VInt 7)])]
                (xs_heap @ [ODict [(''x'', VInt 99)], ODict [(''x'', VInt 1)]])) (VRef 3)
     = Dict [(''x'', Atom (VInt 1))]"
    "content 2 xs_heap (VRef 0) = Dict [(''x'', Atom (VInt 1))]"
    by code_simp+
  from two_branches_independent [OF ok src ij i j ki kj k] n1 w n2 c show ?thesis by blast
qed

section \<open>Branches of a split, in any order\<close>

lemma world_okD:
  assumes "world_ok W h0 s0 w"
  shows "heap_ok (w_heap w)" and "length h0 \<le> length (w_heap w)"
    and "\<forall>a < length h0. w_heap w ! a = h0 ! a"
    and "source (w_split w) = source s0" and "stacked (w_delivered w)"
    and "\<forall>m \<in> set (w_made w). length h0 \<le> m"
    and "closed_in (w_heap w) (owned W w)"
  using assms by (simp_all add: world_ok_def)

lemma world_ok_entry:
  assumes "world_ok W h0 s0 w" and "(b, k, x, lo, hi) \<in> set (w_delivered w)"
  shows "length h0 \<le> lo" and "hi \<le> length (w_heap w)"
    and "\<forall>c. x = VRef c \<longrightarrow> c \<in> {lo ..< hi}"
    and "\<forall>m \<in> set (w_made w). m \<notin> {lo ..< hi}"
    and "b \<notin> W \<Longrightarrow> closed_in (w_heap w) {lo ..< hi}"
    and "b \<notin> W \<Longrightarrow> content n (w_heap w) x = content n h0 (source s0 ! k)"
proof -
  from assms have e: "length h0 \<le> lo \<and> hi \<le> length (w_heap w) \<and>
          (\<forall>c. x = VRef c \<longrightarrow> c \<in> {lo ..< hi}) \<and>
          (\<forall>m \<in> set (w_made w). m \<notin> {lo ..< hi}) \<and>
          (b \<notin> W \<longrightarrow> closed_in (w_heap w) {lo ..< hi} \<and>
                       (\<forall>n. content n (w_heap w) x = content n h0 (source s0 ! k)))"
    unfolding world_ok_def by fast
  from e show "length h0 \<le> lo" by simp
  from e show "hi \<le> length (w_heap w)" by simp
  from e show "\<forall>c. x = VRef c \<longrightarrow> c \<in> {lo ..< hi}" by simp
  from e show "\<forall>m \<in> set (w_made w). m \<notin> {lo ..< hi}" by simp
  from e show "b \<notin> W \<Longrightarrow> closed_in (w_heap w) {lo ..< hi}" by simp
  from e show "b \<notin> W \<Longrightarrow> content n (w_heap w) x = content n h0 (source s0 ! k)" by simp
qed

lemma world_okI:
  assumes "heap_ok (w_heap w)" and "length h0 \<le> length (w_heap w)"
    and "\<forall>a < length h0. w_heap w ! a = h0 ! a"
    and "source (w_split w) = source s0" and "stacked (w_delivered w)"
    and "\<forall>m \<in> set (w_made w). length h0 \<le> m"
    and "closed_in (w_heap w) (owned W w)"
    and "\<And>b k x lo hi. (b, k, x, lo, hi) \<in> set (w_delivered w) \<Longrightarrow>
          length h0 \<le> lo \<and> hi \<le> length (w_heap w) \<and>
          (\<forall>c. x = VRef c \<longrightarrow> c \<in> {lo ..< hi}) \<and>
          (\<forall>m \<in> set (w_made w). m \<notin> {lo ..< hi}) \<and>
          (b \<notin> W \<longrightarrow> closed_in (w_heap w) {lo ..< hi} \<and>
                       (\<forall>n. content n (w_heap w) x = content n h0 (source s0 ! k)))"
  shows "world_ok W h0 s0 w"
  unfolding world_ok_def using assms by fast

lemma owned_cases:
  assumes "a \<in> owned W w"
  obtains (entry) b k x lo hi where "(b, k, x, lo, hi) \<in> set (w_delivered w)" and "b \<in> W" and "a \<in> {lo ..< hi}"
    | (fresh) "a \<in> set (w_made w)"
  using assms by (auto simp: owned_def split: if_splits)

lemma owned_record:
  assumes "(b, k, x, lo, hi) \<in> set (w_delivered w)" and "b \<in> W"
  shows "{lo ..< hi} \<subseteq> owned W w"
  using assms by (force simp: owned_def)

lemma owned_made: "set (w_made w) \<subseteq> owned W w"
  by (simp add: owned_def)

lemma owned_bounds:
  assumes "world_ok W h0 s0 w" and "a \<in> owned W w"
  shows "length h0 \<le> a" and "a < length (w_heap w)"
proof -
  from assms(2) show "length h0 \<le> a"
  proof (cases rule: owned_cases)
    case (entry b k x lo hi)
    with world_ok_entry(1) [OF assms(1) entry(1)] show ?thesis by simp
  next
    case fresh
    with world_okD(6) [OF assms(1)] show ?thesis by simp
  qed
  from world_okD(7) [OF assms(1)] assms(2) show "a < length (w_heap w)"
    by (simp add: closed_in_def)
qed

lemma held_owned:
  assumes wok: "world_ok W h0 s0 w" and h: "held W w a"
  shows "a \<in> owned W w"
proof -
  note cl = world_okD(7) [OF wok]
  from h consider b k x lo hi where "(b, k, x, lo, hi) \<in> set (w_delivered w)" "b \<in> W" "reaches (w_heap w) x a"
    | m where "m \<in> set (w_made w)" "reaches (w_heap w) (VRef m) a"
    unfolding held_def by fast
  then show ?thesis
  proof cases
    case 1
    from world_ok_entry(3) [OF wok 1(1)] owned_record [OF 1(1,2)]
    have "\<forall>c. x = VRef c \<longrightarrow> c \<in> owned W w" by blast
    from reaches_closed [OF 1(3) cl this] show ?thesis .
  next
    case 2
    from 2(1) owned_made have "\<forall>c. VRef m = VRef c \<longrightarrow> c \<in> owned W w" by auto
    from reaches_closed [OF 2(2) cl this] show ?thesis .
  qed
qed

lemma closed_in_agree:
  assumes "closed_in h R" and "\<forall>a \<in> R. a < length h' \<and> h' ! a = h ! a"
  shows "closed_in h' R"
  using assms by (auto simp: closed_in_def)

lemma closed_in_Un:
  assumes "closed_in h A" and "closed_in h B"
  shows "closed_in h (A \<union> B)"
  using assms by (auto simp: closed_in_def)

lemma world_ok_start:
  assumes "heap_ok h0"
  shows "world_ok W h0 s0 \<lparr> w_heap = h0, w_split = s0, w_delivered = [], w_made = [] \<rparr>"
  using assms by (simp add: world_ok_def owned_def closed_in_def)

lemma stacked_disjoint:
  assumes "stacked ds" and "(b1, k1, x1, lo1, hi1) \<in> set ds" and "(b2, k2, x2, lo2, hi2) \<in> set ds"
    and "b1 \<noteq> b2"
  shows "{lo1 ..< hi1} \<inter> {lo2 ..< hi2} = {}"
  using assms
proof (induction ds)
  case Nil
  then show ?case by simp
next
  case (Cons d ds)
  obtain b k x lo hi where d: "d = (b, k, x, lo, hi)" by (cases d)
  from Cons.prems(1) d have below: "\<forall>(b', k', x', lo', hi') \<in> set ds. hi' \<le> lo" and st: "stacked ds"
    by simp_all
  consider "(b1, k1, x1, lo1, hi1) = d" "(b2, k2, x2, lo2, hi2) \<in> set ds"
    | "(b2, k2, x2, lo2, hi2) = d" "(b1, k1, x1, lo1, hi1) \<in> set ds"
    | "(b1, k1, x1, lo1, hi1) \<in> set ds" "(b2, k2, x2, lo2, hi2) \<in> set ds"
    using Cons.prems(2,3,4) by auto
  then show ?case
  proof cases
    case 1
    with below d have "hi2 \<le> lo1" by auto
    then show ?thesis by auto
  next
    case 2
    with below d have "hi1 \<le> lo2" by auto
    then show ?thesis by auto
  next
    case 3
    from Cons.IH [OF st 3 Cons.prems(4)] show ?thesis .
  qed
qed

lemma owned_outside:
  assumes wok: "world_ok W h0 s0 w" and a: "a \<in> owned W w"
    and d: "(b, k, x, lo, hi) \<in> set (w_delivered w)" and b: "b \<notin> W"
  shows "a \<notin> {lo ..< hi}"
  using a
proof (cases rule: owned_cases)
  case (entry b1 k1 x1 lo1 hi1)
  from entry(2) b have "b1 \<noteq> b" by auto
  from stacked_disjoint [OF world_okD(5) [OF wok] entry(1) d this] entry(3) show ?thesis by auto
next
  case fresh
  with world_ok_entry(4) [OF wok d] show ?thesis by simp
qed

lemma branch_next_Inr:
  assumes "branch_next s h b = Some (Inr (x, h', s'))"
  shows "b < length (cursors s)" and "cursors s ! b < length (source s)"
    and "deepcopy_top h (source s ! (cursors s ! b)) = Some (x, h')"
    and "source s' = source s"
  using assms by (auto simp: branch_next_def split: if_splits)

lemma world_ok_pull:
  assumes wok: "world_ok W h0 s0 w" and ok0: "heap_ok h0" and src: "list_all (val_ok h0) (source s0)"
    and bn: "branch_next (w_split w) (w_heap w) b = Some (Inr (x, h', s'))"
  shows "world_ok W h0 s0 \<lparr> w_heap = h', w_split = s',
            w_delivered = (b, cursors (w_split w) ! b, x, length (w_heap w), length h') # w_delivered w,
            w_made = w_made w \<rparr>"
    (is "world_ok W h0 s0 ?w'")
proof -
  let ?h = "w_heap w" and ?k = "cursors (w_split w) ! b"
  note okh = world_okD(1) [OF wok] and len0 = world_okD(2) [OF wok] and old = world_okD(3) [OF wok]
    and so = world_okD(4) [OF wok] and st = world_okD(5) [OF wok] and mk = world_okD(6) [OF wok]
    and cl = world_okD(7) [OF wok]
  note nx = branch_next_Inr [OF bn]
  from nx(2) so have k: "?k < length (source s0)" by simp
  let ?x = "source s0 ! ?k"
  from src k have vx0: "val_ok h0 ?x" by (simp add: list_all_length)
  have vx: "val_ok ?h ?x" by (rule val_ok_mono [OF vx0 len0])
  from nx(3) so have dc: "deepcopy_top ?h ?x = Some (x, h')" by simp
  note p = deepcopy_top_props [OF okh vx dc]
  let ?N = "{length ?h ..< length h'}"
  have agree0: "\<forall>a \<in> {..<length h0}. a < length ?h \<and> ?h ! a = h0 ! a"
    using len0 old by auto
  have cx: "content n ?h ?x = content n h0 ?x" for n
    by (rule content_agree [OF heap_ok_closed [OF ok0] agree0]) (use vx0 in \<open>auto simp: val_ok_def\<close>)
  have xin: "\<forall>c. x = VRef c \<longrightarrow> c \<in> ?N" using p(5) by simp
  have ow: "owned W ?w' = (if b \<in> W then ?N else {}) \<union> owned W w"
    by (auto simp: owned_def)
  have below: "a < length ?h" if "a \<in> owned W w" for a
    using owned_bounds(2) [OF wok that] .
  have ag: "\<forall>a \<in> owned W w. a < length h' \<and> h' ! a = ?h ! a"
    using below p(1,2) by fastforce
  have cl1: "closed_in h' (owned W w)" by (rule closed_in_agree [OF cl ag])
  have cl': "closed_in (w_heap ?w') (owned W ?w')"
  proof (cases "b \<in> W")
    case True
    from closed_in_Un [OF p(4) cl1] True ow show ?thesis by simp
  next
    case False
    with cl1 ow show ?thesis by simp
  qed
  have mk': "\<forall>m \<in> set (w_made w). m \<notin> ?N"
  proof
    fix m assume "m \<in> set (w_made w)"
    then have "m \<in> owned W w" using owned_made by auto
    from below [OF this] show "m \<notin> ?N" by simp
  qed
  have entries: "length h0 \<le> lo \<and> hi \<le> length h' \<and>
          (\<forall>c. x' = VRef c \<longrightarrow> c \<in> {lo ..< hi}) \<and>
          (\<forall>m \<in> set (w_made w). m \<notin> {lo ..< hi}) \<and>
          (b' \<notin> W \<longrightarrow> closed_in h' {lo ..< hi} \<and>
                       (\<forall>n. content n h' x' = content n h0 (source s0 ! k')))"
    if d: "(b', k', x', lo, hi) \<in> set ((b, ?k, x, length ?h, length h') # w_delivered w)"
    for b' k' x' lo hi
  proof (cases "(b', k', x', lo, hi) = (b, ?k, x, length ?h, length h')")
    case True
    with len0 p(1) p(4) xin mk' p(6) cx show ?thesis by simp
  next
    case False
    with d have d': "(b', k', x', lo, hi) \<in> set (w_delivered w)" by auto
    note e = world_ok_entry [OF wok d']
    have ag2: "\<forall>a \<in> {lo ..< hi}. a < length h' \<and> h' ! a = ?h ! a"
      using e(2) p(1,2) by auto
    have "closed_in h' {lo ..< hi} \<and> (\<forall>n. content n h' x' = content n h0 (source s0 ! k'))"
      if nW: "b' \<notin> W"
    proof -
      have "content n h' x' = content n ?h x'" for n
        by (rule content_agree [OF e(5) [OF nW] ag2 e(3)])
      with e(6) [OF nW] closed_in_agree [OF e(5) [OF nW] ag2] show ?thesis by simp
    qed
    with e(1,2,3,4) p(1) show ?thesis by auto
  qed
  have below2: "\<forall>(b', k', x', lo', hi') \<in> set (w_delivered w). hi' \<le> length ?h"
    using world_ok_entry(2) [OF wok] by auto
  have st': "stacked ((b, ?k, x, length ?h, length h') # w_delivered w)"
    using st below2 p(1) by simp
  have old': "\<forall>a < length h0. h' ! a = h0 ! a" using p(2) old len0 by auto
  show ?thesis
  proof (rule world_okI)
    show "heap_ok (w_heap ?w')" using p(3) by simp
    show "length h0 \<le> length (w_heap ?w')" using p(1) len0 by simp
    show "\<forall>a < length h0. w_heap ?w' ! a = h0 ! a" using old' by simp
    show "source (w_split ?w') = source s0" using nx(4) so by simp
    show "stacked (w_delivered ?w')" using st' by simp
    show "\<forall>m \<in> set (w_made ?w'). length h0 \<le> m" using mk by simp
    show "closed_in (w_heap ?w') (owned W ?w')" by (rule cl')
  next
    fix b' k' x' lo hi
    assume "(b', k', x', lo, hi) \<in> set (w_delivered ?w')"
    then have "(b', k', x', lo, hi) \<in> set ((b, ?k, x, length ?h, length h') # w_delivered w)" by simp
    from entries [OF this]
    show "length h0 \<le> lo \<and> hi \<le> length (w_heap ?w') \<and>
          (\<forall>c. x' = VRef c \<longrightarrow> c \<in> {lo ..< hi}) \<and>
          (\<forall>m \<in> set (w_made ?w'). m \<notin> {lo ..< hi}) \<and>
          (b' \<notin> W \<longrightarrow> closed_in (w_heap ?w') {lo ..< hi} \<and>
                       (\<forall>n. content n (w_heap ?w') x' = content n h0 (source s0 ! k')))"
      by simp
  qed
qed

lemma world_ok_step:
  assumes wok: "world_ok W h0 s0 w"
    and len: "length (w_heap w) \<le> length h'"
    and same: "\<forall>a < length (w_heap w). a \<notin> owned W w \<longrightarrow> h' ! a = w_heap w ! a"
    and hok: "heap_ok h'"
    and cl': "closed_in h' (owned W w \<union> set new)"
    and new: "\<forall>m \<in> set new. length (w_heap w) \<le> m"
  shows "world_ok W h0 s0 (w \<lparr> w_heap := h', w_made := new @ w_made w \<rparr>)"
    (is "world_ok W h0 s0 ?w'")
proof -
  let ?h = "w_heap w"
  note len0 = world_okD(2) [OF wok] and old = world_okD(3) [OF wok]
    and so = world_okD(4) [OF wok] and st = world_okD(5) [OF wok] and mk = world_okD(6) [OF wok]
  have ow: "owned W ?w' = owned W w \<union> set new" by (auto simp: owned_def)
  have old': "\<forall>a < length h0. h' ! a = h0 ! a"
  proof (intro allI impI)
    fix a assume a: "a < length h0"
    then have "a \<notin> owned W w" using owned_bounds(1) [OF wok, of a] by auto
    with a len0 same old show "h' ! a = h0 ! a" by simp
  qed
  show ?thesis
  proof (rule world_okI)
    show "heap_ok (w_heap ?w')" using hok by simp
    show "length h0 \<le> length (w_heap ?w')" using len len0 by simp
    show "\<forall>a < length h0. w_heap ?w' ! a = h0 ! a" using old' by simp
    show "source (w_split ?w') = source s0" using so by simp
    show "stacked (w_delivered ?w')" using st by simp
    show "\<forall>m \<in> set (w_made ?w'). length h0 \<le> m" using mk new len0 by auto
    show "closed_in (w_heap ?w') (owned W ?w')" using cl' ow by simp
  next
    fix b k x lo hi
    assume "(b, k, x, lo, hi) \<in> set (w_delivered ?w')"
    then have d: "(b, k, x, lo, hi) \<in> set (w_delivered w)" by simp
    note e = world_ok_entry [OF wok d]
    have nm: "\<forall>m \<in> set (new @ w_made w). m \<notin> {lo ..< hi}"
      using e(4) e(2) new by auto
    have "closed_in h' {lo ..< hi} \<and> (\<forall>n. content n h' x = content n h0 (source s0 ! k))"
      if nW: "b \<notin> W"
    proof -
      have ag: "\<forall>a \<in> {lo ..< hi}. a < length h' \<and> h' ! a = ?h ! a"
      proof
        fix a assume a: "a \<in> {lo ..< hi}"
        have "a \<notin> owned W w" using owned_outside [OF wok _ d nW] a by blast
        with a e(2) len same show "a < length h' \<and> h' ! a = ?h ! a" by simp
      qed
      have "content n h' x = content n ?h x" for n
        by (rule content_agree [OF e(5) [OF nW] ag e(3)])
      with e(6) [OF nW] closed_in_agree [OF e(5) [OF nW] ag] show ?thesis by simp
    qed
    with e(1,2,3) nm len
    show "length h0 \<le> lo \<and> hi \<le> length (w_heap ?w') \<and>
          (\<forall>c. x = VRef c \<longrightarrow> c \<in> {lo ..< hi}) \<and>
          (\<forall>m \<in> set (w_made ?w'). m \<notin> {lo ..< hi}) \<and>
          (b \<notin> W \<longrightarrow> closed_in (w_heap ?w') {lo ..< hi} \<and>
                       (\<forall>n. content n (w_heap ?w') x = content n h0 (source s0 ! k)))"
      by simp
  qed
qed

lemma world_ok_write:
  assumes wok: "world_ok W h0 s0 w" and a: "held W w a"
    and refs: "\<forall>c. VRef c \<in> set (obj_vals ob) \<longrightarrow> held W w c"
  shows "world_ok W h0 s0 (w \<lparr> w_heap := (w_heap w)[a := ob] \<rparr>)"
proof -
  let ?h = "w_heap w" and ?O = "owned W w"
  note cl = world_okD(7) [OF wok]
  from held_owned [OF wok a] have aO: "a \<in> ?O" .
  from refs held_owned [OF wok] have rO: "\<forall>c. VRef c \<in> set (obj_vals ob) \<longrightarrow> c \<in> ?O" by blast
  have ww: "writes_within ?O [(a, ob)]" using aO rO by (simp add: writes_within_def)
  have bd: "\<forall>a \<in> ?O. a < length ?h" using owned_bounds(2) [OF wok] by blast
  have "heap_ok (apply_writes [(a, ob)] ?h)" by (rule apply_writes_ok [OF ww world_okD(1) [OF wok] bd])
  then have hok: "heap_ok (?h[a := ob])" by (simp add: apply_writes_def)
  have cl': "closed_in (?h[a := ob]) (?O \<union> set [])"
    using cl rO bd aO by (auto simp: closed_in_def nth_list_update)
  have same: "\<forall>e < length ?h. e \<notin> ?O \<longrightarrow> ?h[a := ob] ! e = ?h ! e"
  proof (intro allI impI)
    fix e assume "e < length ?h" and "e \<notin> ?O"
    with aO have "a \<noteq> e" by auto
    then show "?h[a := ob] ! e = ?h ! e" by simp
  qed
  from world_ok_step [OF wok _ same hok cl', of] show ?thesis by simp
qed

lemma heap_ok_snoc:
  assumes "heap_ok h" and "\<forall>c. VRef c \<in> set (obj_vals ob) \<longrightarrow> c < length h"
  shows "heap_ok (h @ [ob])"
proof -
  have m: "val_ok (h @ [ob]) x" if "val_ok h x" for x
    using that by (rule val_ok_mono) simp
  have "list_all (val_ok (h @ [ob])) (obj_vals ob)"
    using assms(2) by (auto simp: list_all_iff val_ok_def split: val.splits)
  moreover have "list_all (\<lambda>o'. list_all (val_ok (h @ [ob])) (obj_vals o')) h"
    using assms(1) m by (auto simp: heap_ok_def list_all_iff)
  ultimately show ?thesis by (simp add: heap_ok_def)
qed

lemma world_ok_make:
  assumes wok: "world_ok W h0 s0 w"
    and refs: "\<forall>c. VRef c \<in> set (obj_vals ob) \<longrightarrow> held W w c"
  shows "world_ok W h0 s0 (w \<lparr> w_heap := w_heap w @ [ob], w_made := length (w_heap w) # w_made w \<rparr>)"
proof -
  let ?h = "w_heap w" and ?O = "owned W w"
  note cl = world_okD(7) [OF wok]
  from refs held_owned [OF wok] have rO: "\<forall>c. VRef c \<in> set (obj_vals ob) \<longrightarrow> c \<in> ?O" by blast
  have bd: "\<forall>a \<in> ?O. a < length ?h" using owned_bounds(2) [OF wok] by blast
  from rO bd have "\<forall>c. VRef c \<in> set (obj_vals ob) \<longrightarrow> c < length ?h" by blast
  from heap_ok_snoc [OF world_okD(1) [OF wok] this] have hok: "heap_ok (?h @ [ob])" .
  have cl': "closed_in (?h @ [ob]) (?O \<union> set [length ?h])"
    using cl rO bd by (auto simp: closed_in_def nth_append)
  have same: "\<forall>e < length ?h. e \<notin> ?O \<longrightarrow> (?h @ [ob]) ! e = ?h ! e"
    by (simp add: nth_append)
  from world_ok_step [OF wok _ same hok cl', of] show ?thesis by simp
qed

lemma run_world_ok:
  assumes "run W h0 s0 w" and "heap_ok h0" and "list_all (val_ok h0) (source s0)"
  shows "world_ok W h0 s0 w"
  using assms
proof (induction rule: run.induct)
  case started
  then show ?case by (simp add: world_ok_start)
next
  case (pulled w b x h' s')
  from pulled.IH [OF pulled.prems] pulled.prems pulled.hyps(2) show ?case
    by (rule world_ok_pull)
next
  case (written w a ob)
  from written.IH [OF written.prems] written.hyps(2,3) show ?case
    by (rule world_ok_write)
next
  case (made w ob)
  from made.IH [OF made.prems] made.hyps(2) show ?case
    by (rule world_ok_make)
qed

lemma branch_next_returns:
  assumes "heap_ok h" and "list_all (val_ok h) (source s)" and "b < length (cursors s)"
  shows "\<exists>r. branch_next s h b = Some r"
proof (cases "cursors s ! b < length (source s)")
  case True
  with assms(2) have "val_ok h (source s ! (cursors s ! b))" by (simp add: list_all_length)
  from deepcopy_top_spec [OF assms(1) this] True assms(3) show ?thesis
    by (auto simp: branch_next_def)
next
  case False
  with assms(3) show ?thesis by (simp add: branch_next_def)
qed

text \<open>
  Claim C6. A split runs from a well-formed store: its branches ask for records in any
  order, and the stages downstream of the branches in \<open>W\<close> change in place, at any
  moment, whatever can be reached from the records they have received. No container that
  can be reached from a delivered record is a container of the upstream store, and the
  upstream store stays as it was. Every record delivered on a branch outside \<open>W\<close> has,
  at every moment after its delivery, the content of the upstream record at its position;
  with \<open>W\<close> empty this is every record of every branch. And at every moment a request of
  any branch for its next record returns.
\<close>

theorem split_records_independent:
  assumes r: "run W h0 s0 w" and ok: "heap_ok h0" and src: "list_all (val_ok h0) (source s0)"
  shows "(\<forall>(b, k, x, lo, hi) \<in> set (w_delivered w).
            (\<forall>a. reaches (w_heap w) x a \<longrightarrow> length h0 \<le> a) \<and>
            (b \<notin> W \<longrightarrow> (\<forall>n. content n (w_heap w) x = content n h0 (source s0 ! k)))) \<and>
         (\<forall>a < length h0. w_heap w ! a = h0 ! a) \<and>
         (\<forall>b < length (cursors (w_split w)). \<exists>r. branch_next (w_split w) (w_heap w) b = Some r)"
proof -
  from run_world_ok [OF r ok src] have wok: "world_ok W h0 s0 w" .
  have "(\<forall>a. reaches (w_heap w) x a \<longrightarrow> length h0 \<le> a) \<and>
            (b \<notin> W \<longrightarrow> (\<forall>n. content n (w_heap w) x = content n h0 (source s0 ! k)))"
    if d: "(b, k, x, lo, hi) \<in> set (w_delivered w)" for b k x lo hi
  proof -
    note e = world_ok_entry [OF wok d]
    have "length h0 \<le> a" if ra: "reaches (w_heap w) x a" for a
    proof (cases "b \<in> W")
      case True
      then have "held W w a" using d ra unfolding held_def by fast
      from owned_bounds(1) [OF wok held_owned [OF wok this]] show ?thesis .
    next
      case False
      from reaches_closed [OF ra e(5) [OF False] e(3)] e(1) show ?thesis by simp
    qed
    with e(6) show ?thesis by blast
  qed
  then have one: "\<forall>(b, k, x, lo, hi) \<in> set (w_delivered w).
            (\<forall>a. reaches (w_heap w) x a \<longrightarrow> length h0 \<le> a) \<and>
            (b \<notin> W \<longrightarrow> (\<forall>n. content n (w_heap w) x = content n h0 (source s0 ! k)))"
    by fast
  have three: "\<exists>r. branch_next (w_split w) (w_heap w) b = Some r"
    if "b < length (cursors (w_split w))" for b
  proof -
    note h = world_okD(1) [OF wok] and l = world_okD(2) [OF wok] and so = world_okD(4) [OF wok]
    from src l have "list_all (val_ok (w_heap w)) (source s0)"
      by (auto simp: list_all_iff intro: val_ok_mono)
    with so have "list_all (val_ok (w_heap w)) (source (w_split w))" by simp
    from branch_next_returns [OF h this that] show ?thesis .
  qed
  from one world_okD(3) [OF wok] three show ?thesis by blast
qed

theorem split_records_independent_witness:
  "run {0} xs_heap xs_split xs_world \<and>
   content 2 (w_heap xs_world) (VRef 2) = Dict [(''x'', Atom (VInt 1))] \<and>
   content 2 xs_heap (VRef 0) = Dict [(''x'', Atom (VInt 1))] \<and>
   content 2 (w_heap xs_world) (VRef 3) = Dict [(''x'', Atom (VInt 99))]"
proof -
  let ?h1 = "[ODict [(''x'', VInt 1)], ODict [(''x'', VInt 2)], ODict [(''x'', VInt 1)]]"
  let ?h2 = "[ODict [(''x'', VInt 1)], ODict [(''x'', VInt 2)], ODict [(''x'', VInt 1)], ODict [(''x'', VInt 1)]]"
  let ?s1 = "\<lparr> source = [VRef 0, VRef 1], cursors = [0, 1], handed = 2 \<rparr>"
  let ?s2 = "\<lparr> source = [VRef 0, VRef 1], cursors = [1, 1], handed = 2 \<rparr>"
  let ?w0 = "\<lparr> w_heap = xs_heap, w_split = xs_split, w_delivered = [], w_made = [] \<rparr>"
  let ?w1 = "\<lparr> w_heap = ?h1, w_split = ?s1, w_delivered = [(1, 0, VRef 2, 2, 3)], w_made = [] \<rparr>"
  let ?w2 = "\<lparr> w_heap = ?h2, w_split = ?s2, w_delivered = [(0, 0, VRef 3, 3, 4), (1, 0, VRef 2, 2, 3)],
               w_made = [] \<rparr>"
  have ok: "heap_ok xs_heap" by code_simp
  have src: "list_all (val_ok xs_heap) (source xs_split)" by code_simp
  have n1: "branch_next (w_split ?w0) (w_heap ?w0) 1 = Some (Inr (VRef 2, ?h1, ?s1))" by code_simp
  have r1: "run {0} xs_heap xs_split ?w1"
    using run.pulled [OF run.started n1, of "{0}"] by (simp add: xs_heap_def xs_split_def eval_nat_numeral)
  have n2: "branch_next (w_split ?w1) (w_heap ?w1) 0 = Some (Inr (VRef 3, ?h2, ?s2))" by code_simp
  have r2: "run {0} xs_heap xs_split ?w2"
    using run.pulled [OF r1 n2] by (simp add: eval_nat_numeral)
  have "reaches (w_heap ?w2) (VRef 3) 3" by (rule reaches.here) simp
  then have o: "held {0} ?w2 3" by (simp add: held_def)
  have f: "\<forall>c. VRef c \<in> set (obj_vals (ODict [(''x'', VInt 99)])) \<longrightarrow> held {0} ?w2 c" by simp
  have r3: "run {0} xs_heap xs_split xs_world"
    using run.written [OF r2 o f] by (simp add: xs_world_def eval_nat_numeral)
  have c: "content 2 (w_heap xs_world) (VRef 2) = Dict [(''x'', Atom (VInt 1))]"
    "content 2 xs_heap (VRef 0) = Dict [(''x'', Atom (VInt 1))]"
    "content 2 (w_heap xs_world) (VRef 3) = Dict [(''x'', Atom (VInt 99))]"
    by code_simp+
  from split_records_independent [OF r3 ok src]
  have "content 2 (w_heap xs_world) (VRef 2) = content 2 xs_heap (source xs_split ! 0)"
    by (simp add: xs_world_def)
  with r3 c show ?thesis by simp
qed

section \<open>Activating branches\<close>

lemma activations_spent:
  assumes "length (cursors s) \<le> handed s"
  shows "activations m s = replicate m (Inl overactivated)"
  using assms by (induction m) (simp_all add: split_iter_def overactivated_def)

lemma activations_upto:
  assumes "handed s + m \<le> length (cursors s)"
  shows "activations m s = map Inr [handed s ..< handed s + m]"
  using assms
proof (induction m arbitrary: s)
  case 0
  then show ?case by simp
next
  case (Suc m)
  let ?s = "s \<lparr> handed := Suc (handed s) \<rparr>"
  from Suc.prems have lt: "handed s < length (cursors s)" by simp
  from Suc.prems have "handed ?s + m \<le> length (cursors ?s)" by simp
  from Suc.IH [OF this] have "activations m ?s = map Inr [Suc (handed s) ..< Suc (handed s) + m]"
    by simp
  with lt show ?case by (simp add: split_iter_def upt_rec [of "handed s"])
qed

lemma activations_append:
  "activations (m + k) s = activations m s @ activations k (after_activations m s)"
  by (induction m arbitrary: s) (auto split: sum.splits)

lemma after_activations_upto:
  assumes "handed s + m \<le> length (cursors s)"
  shows "after_activations m s = s \<lparr> handed := handed s + m \<rparr>"
  using assms
proof (induction m arbitrary: s)
  case 0
  then show ?case by simp
next
  case (Suc m)
  let ?s = "s \<lparr> handed := Suc (handed s) \<rparr>"
  from Suc.prems have lt: "handed s < length (cursors s)" by simp
  from Suc.prems have "handed ?s + m \<le> length (cursors ?s)" by simp
  from Suc.IH [OF this] lt show ?case by (simp add: split_iter_def)
qed

text \<open>
  Claim C7. A split constructed with fan-out \<open>n\<close> answers \<open>n + 1\<close> calls of \<open>__iter__\<close> as
  follows: the first \<open>n\<close> calls return the branches \<open>0\<close> to \<open>n - 1\<close>, each a branch of its
  own, and the last call raises the \<open>ValueError\<close> of the over-activation.
\<close>

theorem split_overactivation:
  assumes "0 \<le> n" and "split_init xs n = Inr s"
  shows "activations (nat n + 1) s = map Inr [0 ..< nat n] @ [Inl overactivated] \<and>
         distinct [0 ..< nat n] \<and> length (cursors s) = nat n"
proof -
  from assms have s: "s = \<lparr> source = xs, cursors = replicate (nat n) 0, handed = 0 \<rparr>"
    by (simp add: split_init_def)
  then have h: "handed s + nat n \<le> length (cursors s)" by simp
  have "activations (nat n + 1) s = activations (nat n) s @ activations 1 (after_activations (nat n) s)"
    by (rule activations_append)
  also have "activations (nat n) s = map Inr [0 ..< nat n]"
    using activations_upto [OF h] s by simp
  also have "after_activations (nat n) s = s \<lparr> handed := nat n \<rparr>"
    using after_activations_upto [OF h] s by simp
  also have "activations 1 (s \<lparr> handed := nat n \<rparr>) = [Inl overactivated]"
    using activations_spent [of "s \<lparr> handed := nat n \<rparr>" 1] s by simp
  finally show ?thesis using s by simp
qed

theorem split_overactivation_witness:
  "split_init [VRef 0, VRef 1] 2 = Inr \<lparr> source = [VRef 0, VRef 1], cursors = [0, 0], handed = 0 \<rparr> \<and>
   activations 3 \<lparr> source = [VRef 0, VRef 1], cursors = [0, 0], handed = 0 \<rparr>
     = [Inr 0, Inr 1, Inl overactivated]"
proof -
  let ?s = "\<lparr> source = [VRef 0, VRef 1], cursors = [0, 0], handed = 0 \<rparr>"
  have n: "(0::int) \<le> 2" by simp
  have i: "split_init [VRef 0, VRef 1] 2 = Inr ?s" by code_simp
  have e: "nat 2 + 1 = 3" "[0 ..< nat 2] = [0, 1]" by code_simp+
  from split_overactivation [OF n i] i e show ?thesis by simp
qed

end
